theory Spec2Isabelle
  imports Complex_Main "HOL-Library.AList" "HOL-Library.Sublist"
begin

section \<open>Python values the listing parser relies on\<close>

text \<open>
  Python integers are unbounded and are modelled by \<open>int\<close>; \<open>//\<close> rounds towards minus
  infinity like \<open>div\<close> on \<open>int\<close>, but raises \<open>ZeroDivisionError\<close> for a zero divisor.
  Indexing a list out of range raises \<open>IndexError\<close>.  Both failures are values of
  \<open>py_error\<close>; a computation that may raise returns \<open>py_error + 'a\<close>.
\<close>

datatype py_error = ZeroDivisionError | IndexError

definition py_bind :: "py_error + 'a \<Rightarrow> ('a \<Rightarrow> py_error + 'b) \<Rightarrow> py_error + 'b" where
  "py_bind r f = (case r of Inl e \<Rightarrow> Inl e | Inr v \<Rightarrow> f v)"

definition py_floordiv :: "int \<Rightarrow> int \<Rightarrow> py_error + int" where
  "py_floordiv a b = (if b = 0 then Inl ZeroDivisionError else Inr (a div b))"

definition py_index :: "'a list \<Rightarrow> int \<Rightarrow> py_error + 'a" where
  "py_index xs i =
     (if 0 \<le> i \<and> i < int (length xs) then Inr (xs ! nat i)
      else if - int (length xs) \<le> i \<and> i < 0 then Inr (xs ! nat (int (length xs) + i))
      else Inl IndexError)"

text \<open>
  \<open>xs[start:stop]\<close> with step 1: a negative bound counts from the end, and both bounds
  are then clamped into \<open>0..len(xs)\<close>; an empty or inverted range gives the empty list,
  never an error.
\<close>

definition py_slice_bound :: "int \<Rightarrow> int \<Rightarrow> int" where
  "py_slice_bound n i = (if i < 0 then max 0 (i + n) else min i n)"

definition py_slice :: "'a list \<Rightarrow> int \<Rightarrow> int \<Rightarrow> 'a list" where
  "py_slice xs start stop =
     (let n = int (length xs);
          lo = py_slice_bound n start;
          hi = py_slice_bound n stop
      in take (nat (hi - lo)) (drop (nat lo) xs))"

section \<open>Data model (models.py)\<close>

record Region =
  key :: string
  name :: string
  filename :: string

record Event =
  date :: string
  time :: string
  title :: string
  venue :: string
  location :: string
  genres :: "string list"
  price :: "string option"
  age_restriction :: "string option"
  organizers :: "string list"
  url :: "string option"
  additional_links :: "(string \<times> string) list"

record EventPage =
  events :: "Event list"
  page :: int
  page_size :: int
  total_events :: int
  has_more :: bool

text \<open>\<open>EventPage.total_pages\<close>: \<open>max(1, (total_events + page_size - 1) // page_size)\<close>.\<close>

definition total_pages :: "EventPage \<Rightarrow> py_error + int" where
  "total_pages p =
     (case py_floordiv (total_events p + page_size p - 1) (page_size p) of
        Inl e \<Rightarrow> Inl e
      | Inr q \<Rightarrow> Inr (max 1 q))"

section \<open>The paginator (parser.py, \<open>_paginate_events\<close>)\<close>

definition paginate_events :: "Event list \<Rightarrow> int \<Rightarrow> int \<Rightarrow> EventPage" where
  "paginate_events evs pg psize =
     (let total_ev = int (length evs);
          pg1 = max 1 pg;
          start_idx = (pg1 - 1) * psize;
          end_idx = start_idx + psize
      in \<lparr> events = py_slice evs start_idx end_idx,
           page = pg1,
           page_size = psize,
           total_events = total_ev,
           has_more = (end_idx < total_ev) \<rparr>)"

section \<open>Python strings\<close>

text \<open>
  A string is a list of characters, and a character is a Unicode code point below 256
  (\<open>of_char\<close> is Python's \<open>ord\<close>, \<open>char_of\<close> its \<open>chr\<close>); text with other code points is
  outside this model.  On these code points \<open>is_space\<close> is the whitespace that
  \<open>str.strip()\<close> removes (\<open>str.isspace\<close>: the ASCII controls and the space, next line
  \<open>0x85\<close> and the no-break space \<open>0xA0\<close>), \<open>char_lower\<close> is \<open>str.lower()\<close> on one
  character (the letters \<open>A\<close> to \<open>Z\<close> and \<open>0xC0\<close> to \<open>0xDE\<close> without the multiplication
  sign \<open>0xD7\<close> move up by 32), \<open>is_digit\<close> is the regular expression class \<open>\d\<close> and
  \<open>is_word\<close> the class \<open>\w\<close> (alphanumeric characters and the underscore), which also
  decides \<open>\b\<close>.
\<close>

definition in_ranges :: "nat \<Rightarrow> (nat \<times> nat) list \<Rightarrow> bool" where
  "in_ranges n rs = list_ex (\<lambda>(lo, hi). lo \<le> n \<and> n \<le> hi) rs"

definition is_space :: "char \<Rightarrow> bool" where
  "is_space c = in_ranges (of_char c) [(0x09, 0x0D), (0x1C, 0x20), (0x85, 0x85), (0xA0, 0xA0)]"

definition is_digit :: "char \<Rightarrow> bool" where
  "is_digit c = (c \<in> set ''0123456789'')"

definition is_upper :: "char \<Rightarrow> bool" where
  "is_upper c = in_ranges (of_char c) [(0x41, 0x5A), (0xC0, 0xD6), (0xD8, 0xDE)]"

definition is_word :: "char \<Rightarrow> bool" where
  "is_word c = in_ranges (of_char c)
     [(0x30, 0x39), (0x41, 0x5A), (0x5F, 0x5F), (0x61, 0x7A), (0xAA, 0xAA), (0xB2, 0xB3),
      (0xB5, 0xB5), (0xB9, 0xBA), (0xBC, 0xBE), (0xC0, 0xD6), (0xD8, 0xF6), (0xF8, 0xFF)]"

definition char_lower :: "char \<Rightarrow> char" where
  "char_lower c = (if is_upper c then char_of (of_char c + 32 :: nat) else c)"

definition str_lower :: "string \<Rightarrow> string" where
  "str_lower s = map char_lower s"

definition str_strip :: "string \<Rightarrow> string" where
  "str_strip s = rev (dropWhile is_space (rev (dropWhile is_space s)))"

text \<open>\<open>needle in haystack\<close>: the needle occurs as a contiguous run of the haystack.\<close>

fun str_in :: "string \<Rightarrow> string \<Rightarrow> bool" where
  "str_in needle [] = (needle = [])"
| "str_in needle (c # cs) = (prefix needle (c # cs) \<or> str_in needle cs)"

text \<open>
  \<open>s.split(sep)\<close> and \<open>s.split(sep, maxsplit)\<close> for a one-character separator: the pieces
  between the separators, at least one piece, empty pieces kept.
\<close>

fun str_split :: "char \<Rightarrow> string \<Rightarrow> string list" where
  "str_split sep [] = [[]]"
| "str_split sep (c # cs) =
     (if c = sep then [] # str_split sep cs
      else (case str_split sep cs of [] \<Rightarrow> [[c]] | w # ws \<Rightarrow> (c # w) # ws))"

fun str_split_max :: "char \<Rightarrow> nat \<Rightarrow> string \<Rightarrow> string list" where
  "str_split_max sep 0 s = [s]"
| "str_split_max sep (Suc k) [] = [[]]"
| "str_split_max sep (Suc k) (c # cs) =
     (if c = sep then [] # str_split_max sep k cs
      else (case str_split_max sep (Suc k) cs of [] \<Rightarrow> [[c]] | w # ws \<Rightarrow> (c # w) # ws))"

section \<open>The regular expressions of the parser\<close>

text \<open>
  A compiled pattern is modelled by its matcher at one position: given the character
  before the position (if any) and the text from the position on, it returns the length of
  the match the backtracking engine finds there, or \<open>None\<close>.  \<open>re_search\<close> is
  \<open>pattern.search\<close>: it tries the positions from left to right and returns the text before
  the first match, the match (group 0) and the text after it.  \<open>re_sub_empty\<close> is
  \<open>pattern.sub("", s)\<close>: every match, found from left to right, is deleted.
\<close>

type_synonym pattern = "char option \<Rightarrow> string \<Rightarrow> nat option"

fun re_search :: "pattern \<Rightarrow> char option \<Rightarrow> string \<Rightarrow> (string \<times> string \<times> string) option" where
  "re_search pat prev [] =
     (case pat prev [] of None \<Rightarrow> None | Some n \<Rightarrow> Some ([], [], []))"
| "re_search pat prev (c # cs) =
     (case pat prev (c # cs) of
        Some n \<Rightarrow> Some ([], take n (c # cs), drop n (c # cs))
      | None \<Rightarrow>
         (case re_search pat (Some c) cs of
            None \<Rightarrow> None
          | Some (before, grp, after) \<Rightarrow> Some (c # before, grp, after)))"

fun re_sub_empty :: "pattern \<Rightarrow> char option \<Rightarrow> string \<Rightarrow> string" where
  "re_sub_empty pat prev [] = []"
| "re_sub_empty pat prev (c # cs) =
     (case pat prev (c # cs) of
        Some (Suc n) \<Rightarrow> re_sub_empty pat (Some (last (take (Suc n) (c # cs)))) (drop n cs)
      | _ \<Rightarrow> c # re_sub_empty pat (Some c) cs)"

text \<open>\<open>DATE_PATTERN = (Mon|Tue|Wed|Thu|Fri|Sat|Sun)[^\n]*\<close>\<close>

definition weekday_tokens :: "string list" where
  "weekday_tokens = [''Mon'', ''Tue'', ''Wed'', ''Thu'', ''Fri'', ''Sat'', ''Sun'']"

definition DATE_PATTERN :: pattern where
  "DATE_PATTERN prev s =
     (case find (\<lambda>tok. prefix tok s) weekday_tokens of
        None \<Rightarrow> None
      | Some tok \<Rightarrow>
          Some (length tok + length (takeWhile (\<lambda>c. c \<noteq> CHR 0x0A) (drop (length tok) s))))"

text \<open>\<open>TIME_PATTERN = \(([^)]+)\)\<close>; group 1 is the match without its two parentheses.\<close>

definition TIME_PATTERN :: pattern where
  "TIME_PATTERN prev s =
     (case s of
        [] \<Rightarrow> None
      | c # rest \<Rightarrow>
          (let body = takeWhile (\<lambda>x. x \<noteq> CHR '')'') rest
           in if c = CHR ''('' \<and> body \<noteq> [] \<and> length body < length rest
              then Some (length body + 2) else None))"

text \<open>\<open>PRICE_PATTERN = \$[\d\.]+|free|donation\<close>, ignoring case.\<close>

definition PRICE_PATTERN :: pattern where
  "PRICE_PATTERN prev s =
     (let amount = takeWhile (\<lambda>x. is_digit x \<or> x = CHR ''.'') (drop 1 s)
      in if prefix ''$'' s \<and> amount \<noteq> [] then Some (1 + length amount)
         else if str_lower (take 4 s) = ''free'' then Some 4
         else if str_lower (take 8 s) = ''donation'' then Some 8
         else None)"

text \<open>
  \<open>AGE_PATTERN = \b(21\+|18\+|All ages|\d+\+)\<close>, ignoring case.  \<open>\b\<close> holds where exactly
  one of the characters before and after the position is a word character.
\<close>

definition word_boundary :: "char option \<Rightarrow> string \<Rightarrow> bool" where
  "word_boundary prev s =
     ((case prev of None \<Rightarrow> False | Some c \<Rightarrow> is_word c)
        \<noteq> (case s of [] \<Rightarrow> False | c # _ \<Rightarrow> is_word c))"

definition AGE_PATTERN :: pattern where
  "AGE_PATTERN prev s =
     (let digits = takeWhile is_digit s
      in if \<not> word_boundary prev s then None
         else if prefix ''21+'' s then Some 3
         else if prefix ''18+'' s then Some 3
         else if str_lower (take 8 s) = ''all ages'' then Some 8
         else if digits \<noteq> [] \<and> prefix ''+'' (drop (length digits) s)
              then Some (length digits + 1)
         else None)"

text \<open>
  \<open>VENUE_LOCATION_PATTERN = \([^)]+\)$\<close>; \<open>$\<close> holds at the end of the text and before a
  newline that ends the text.
\<close>

definition VENUE_LOCATION_PATTERN :: pattern where
  "VENUE_LOCATION_PATTERN prev s =
     (case s of
        [] \<Rightarrow> None
      | c # rest \<Rightarrow>
          (let body = takeWhile (\<lambda>x. x \<noteq> CHR '')'') rest;
               after = dropWhile (\<lambda>x. x \<noteq> CHR '')'') rest
           in if c = CHR ''('' \<and> body \<noteq> [] \<and> (after = '')'' \<or> after = [CHR '')'', CHR 0x0A])
              then Some (length body + 2) else None))"

section \<open>Table cells and the field extractors (parser.py)\<close>

text \<open>
  What the parser reads of a table cell: its text (\<open>cell.text(deep=True, strip=True)\<close>)
  and its hyperlinks in document order (\<open>cell.css("a")\<close>; \<open>cell.css_first("a")\<close> is the
  first of them).  Of a hyperlink it reads the visible text (\<open>link.text(strip=True)\<close>) and the
  \<open>href\<close> attribute, \<open>None\<close> when the attribute is missing or has no value.
\<close>

record Link =
  link_text :: string
  href :: "string option"

record Cell =
  cell_text :: string
  cell_links :: "Link list"

definition BASE_URL :: string where
  "BASE_URL = ''https://19hz.info''"

definition MIN_CELLS_FOR_EVENT :: int where
  "MIN_CELLS_FOR_EVENT = 6"

text \<open>\<open>link.attributes.get("href", "")\<close>; a missing value is as falsy as the default.\<close>

definition attributes_get_href :: "Link \<Rightarrow> string" where
  "attributes_get_href l = (case href l of None \<Rightarrow> [] | Some h \<Rightarrow> h)"

definition make_absolute_url :: "string \<Rightarrow> string option" where
  "make_absolute_url u =
     (if u = [] then None
      else if prefix ''http'' u then Some u
      else if prefix ''/'' u then Some (BASE_URL @ u)
      else Some u)"

definition extract_datetime :: "Cell \<Rightarrow> string option \<times> string" where
  "extract_datetime cell =
     (let text = cell_text cell
      in case re_search DATE_PATTERN None text of
           None \<Rightarrow> (None, ''TBA'')
         | Some (_, date_grp, _) \<Rightarrow>
             (Some date_grp,
              (case re_search TIME_PATTERN None text of
                 None \<Rightarrow> ''TBA''
               | Some (_, time_grp, _) \<Rightarrow> butlast (tl time_grp))))"

definition extract_title_and_url :: "Cell \<Rightarrow> py_error + (string \<times> string option)" where
  "extract_title_and_url cell =
     (case cell_links cell of
        l # _ \<Rightarrow> Inr (link_text l, make_absolute_url (attributes_get_href l))
      | [] \<Rightarrow>
          (let text = cell_text cell
           in if str_in ''@'' text
              then py_bind (py_index (str_split CHR ''@'' text) 0) (\<lambda>t. Inr (str_strip t, None))
              else Inr (''Event'', None)))"

definition extract_venue :: "Cell \<Rightarrow> py_error + string" where
  "extract_venue cell =
     (let text = cell_text cell
      in if \<not> str_in ''@'' text then Inr ''TBA''
         else py_bind (py_index (str_split_max CHR ''@'' 1 text) 1)
                (\<lambda>v. Inr (str_strip (re_sub_empty VENUE_LOCATION_PATTERN None (str_strip v)))))"

definition extract_genres :: "Cell \<Rightarrow> string list" where
  "extract_genres cell =
     map str_strip (filter (\<lambda>g. str_strip g \<noteq> []) (str_split CHR '','' (cell_text cell)))"

definition extract_price_and_age :: "Cell \<Rightarrow> string option \<times> string option" where
  "extract_price_and_age cell =
     (let text = cell_text cell
      in ((case re_search PRICE_PATTERN None text of
             None \<Rightarrow> None | Some (_, grp, _) \<Rightarrow> Some grp),
          (case re_search AGE_PATTERN None text of
             None \<Rightarrow> None | Some (_, grp, _) \<Rightarrow> Some grp)))"

definition extract_organizers :: "Cell \<Rightarrow> string list" where
  "extract_organizers cell =
     map str_strip (filter (\<lambda>g. str_strip g \<noteq> []) (str_split CHR '','' (cell_text cell)))"

text \<open>
  The dictionary of additional links keeps its keys in insertion order; assigning to a key
  that is present replaces the value in place, which is \<open>AList.update\<close>.
\<close>

fun add_links :: "Link list \<Rightarrow> (string \<times> string) list \<Rightarrow> (string \<times> string) list" where
  "add_links [] links = links"
| "add_links (l # ls) links =
     (case make_absolute_url (attributes_get_href l) of
        None \<Rightarrow> add_links ls links
      | Some u \<Rightarrow>
          (if link_text l \<noteq> [] then add_links ls (AList.update (link_text l) u links)
           else add_links ls links))"

definition extract_additional_links :: "Cell option \<Rightarrow> (string \<times> string) list" where
  "extract_additional_links cell =
     (case cell of None \<Rightarrow> [] | Some c \<Rightarrow> add_links (cell_links c) [])"

section \<open>The event row parser (parser.py, \<open>_parse_event_row\<close>)\<close>

definition parse_event_row :: "Cell list \<Rightarrow> Region \<Rightarrow> py_error + Event option" where
  "parse_event_row cells region =
     (if int (length cells) < MIN_CELLS_FOR_EVENT then Inr None
      else
        py_bind (py_index cells 0) (\<lambda>c0.
        case extract_datetime c0 of (date_opt, time_str) \<Rightarrow>
        (case date_opt of
           None \<Rightarrow> Inr None
         | Some date_str \<Rightarrow>
            if date_str = [] then Inr None
            else
              py_bind (py_index cells 1) (\<lambda>c1.
              py_bind (extract_title_and_url c1) (\<lambda>(title_str, url_opt).
              py_bind (py_index cells 1) (\<lambda>c1'.
              py_bind (extract_venue c1') (\<lambda>venue_str.
              py_bind (py_index cells 2) (\<lambda>c2.
              py_bind (py_index cells 3) (\<lambda>c3.
              case extract_price_and_age c3 of (price_opt, age_opt) \<Rightarrow>
              py_bind (py_index cells 4) (\<lambda>c4.
              py_bind (if 5 < int (length cells)
                       then py_bind (py_index cells 5) (\<lambda>c5. Inr (Some c5))
                       else Inr None) (\<lambda>c5_opt.
              Inr (Some \<lparr> date = date_str,
                          time = time_str,
                          title = title_str,
                          venue = venue_str,
                          location = name region,
                          genres = extract_genres c2,
                          price = price_opt,
                          age_restriction = age_opt,
                          organizers = extract_organizers c4,
                          url = url_opt,
                          additional_links = extract_additional_links c5_opt \<rparr>))))))))))))"

text \<open>\<open>_parse_events_html\<close>: the rows of the table body in order, rows without event dropped.\<close>

fun parse_events_rows :: "Cell list list \<Rightarrow> Region \<Rightarrow> py_error + Event list" where
  "parse_events_rows [] region = Inr []"
| "parse_events_rows (row # rows) region =
     py_bind (parse_event_row row region) (\<lambda>ev_opt.
     py_bind (parse_events_rows rows region) (\<lambda>evs.
     Inr (case ev_opt of None \<Rightarrow> evs | Some ev \<Rightarrow> ev # evs)))"

section \<open>The search filter (models.py, \<open>Event.matches_search\<close>)\<close>

definition matches_search :: "Event \<Rightarrow> string \<Rightarrow> bool" where
  "matches_search ev search_term =
     (let search_lower = str_lower search_term
      in str_in search_lower (str_lower (title ev))
         \<or> str_in search_lower (str_lower (venue ev))
         \<or> list_ex (\<lambda>g. str_in search_lower (str_lower g)) (genres ev)
         \<or> list_ex (\<lambda>org. str_in search_lower (str_lower org)) (organizers ev))"

section \<open>Notions used to state the properties\<close>

text \<open>
  The page count as the specification words it: \<open>max(1, ceil(total_events / page_size))\<close>,
  with the quotient taken in the reals.
\<close>

definition spec_total_pages :: "int \<Rightarrow> int \<Rightarrow> int" where
  "spec_total_pages tot psize = max 1 \<lceil>real_of_int tot / real_of_int psize\<rceil>"

text \<open>The text contains one of the weekday abbreviations, in this spelling.\<close>

definition contains_weekday :: "string \<Rightarrow> bool" where
  "contains_weekday text = (\<exists>tok\<in>set weekday_tokens. sublist tok text)"

text \<open>
  The text \<open>v\<close> ends with a parenthesized suffix that starts right after \<open>p\<close>: an opening
  parenthesis, a non-empty body without closing parenthesis, and the closing parenthesis
  that ends \<open>v\<close>.
\<close>

definition paren_suffix :: "string \<Rightarrow> string \<Rightarrow> string \<Rightarrow> bool" where
  "paren_suffix v p body \<longleftrightarrow> v = p @ ''('' @ body @ '')'' \<and> body \<noteq> [] \<and> CHR '')'' \<notin> set body"

text \<open>The trimmed text after the first \<open>@\<close> of a text that has one.\<close>

definition trimmed_after_at :: "string \<Rightarrow> string" where
  "trimmed_after_at text = str_strip (tl (dropWhile (\<lambda>c. c \<noteq> CHR ''@'') text))"

text \<open>
  A hyperlink contributes to the additional links when its visible text is not empty and
  its \<open>href\<close> resolves, that is, is present and not empty.
\<close>

definition link_usable :: "Link \<Rightarrow> bool" where
  "link_usable l = (link_text l \<noteq> [] \<and> (\<exists>h. href l = Some h \<and> h \<noteq> []))"

text \<open>The character before a position, given the text before the position.\<close>

definition prev_at :: "char option \<Rightarrow> string \<Rightarrow> char option" where
  "prev_at prev before = (if before = [] then prev else Some (last before))"

text \<open>
  What the price and age patterns match, in words.  A price token is a dollar sign followed
  by one or more characters that are digits or dots, or one of the words \<open>free\<close> and
  \<open>donation\<close> in any mix of cases.  An age token is \<open>21+\<close>, \<open>18+\<close>, \<open>All ages\<close> in any mix
  of cases, or one or more digits followed by \<open>+\<close>.  A position is at a word boundary when
  exactly one of the characters next to it is a word character.
\<close>

definition price_token :: "string \<Rightarrow> bool" where
  "price_token m \<longleftrightarrow>
     (\<exists>amount. m = ''$'' @ amount \<and> amount \<noteq> [] \<and> (\<forall>c\<in>set amount. is_digit c \<or> c = CHR ''.''))
     \<or> str_lower m = ''free'' \<or> str_lower m = ''donation''"

definition age_token :: "string \<Rightarrow> bool" where
  "age_token m \<longleftrightarrow>
     m = ''21+'' \<or> m = ''18+'' \<or> str_lower m = ''all ages''
     \<or> (\<exists>ds. m = ds @ ''+'' \<and> ds \<noteq> [] \<and> (\<forall>c\<in>set ds. is_digit c))"

definition at_word_boundary :: "string \<Rightarrow> string \<Rightarrow> bool" where
  "at_word_boundary before rest \<longleftrightarrow>
     ((before \<noteq> [] \<and> is_word (last before)) \<noteq> (rest \<noteq> [] \<and> is_word (hd rest)))"

text \<open>
  \<open>occurs before m after\<close> says that \<open>m\<close>, standing between \<open>before\<close> and \<open>after\<close>, is
  an occurrence of a pattern.  \<open>m\<close> is the first match in a text when it is an occurrence
  there, no occurrence starts further left, and no occurrence starting at the same place
  is longer.
\<close>

definition first_match :: "(string \<Rightarrow> string \<Rightarrow> string \<Rightarrow> bool) \<Rightarrow> string \<Rightarrow> string \<Rightarrow> bool" where
  "first_match occurs text m \<longleftrightarrow>
     (\<exists>before after. text = before @ m @ after \<and> occurs before m after
        \<and> (\<forall>before' m' after'. text = before' @ m' @ after' \<and> occurs before' m' after' \<longrightarrow>
              length before < length before'
              \<or> (length before = length before' \<and> length m' \<le> length m)))"

definition price_occurs :: "string \<Rightarrow> string \<Rightarrow> string \<Rightarrow> bool" where
  "price_occurs before m after \<longleftrightarrow> price_token m"

definition age_occurs :: "string \<Rightarrow> string \<Rightarrow> string \<Rightarrow> bool" where
  "age_occurs before m after \<longleftrightarrow> age_token m \<and> at_word_boundary before (m @ after)"

section \<open>Concrete inputs\<close>

text \<open>A concrete event, used to build concrete event lists.\<close>

definition sample_event :: Event where
  "sample_event = \<lparr> date = ''Sat: Nov 8'', time = ''9pm-2am'', title = ''Night Shift'',
      venue = ''Club X'', location = ''Seattle'', genres = [''techno''],
      price = Some ''$10'', age_restriction = Some ''21+'', organizers = [''Crew''],
      url = None, additional_links = [] \<rparr>"

text \<open>A concrete event for the search filter.\<close>

definition sample_filter_event :: Event where
  "sample_filter_event = \<lparr> date = ''Sat: Nov 8'', time = ''9pm-2am'', title = ''Night Shift'',
      venue = ''Club X'', location = ''Seattle'', genres = [''Techno'', ''house''],
      price = Some ''free'', age_restriction = Some ''21+'', organizers = [''Deep Crew''],
      url = None, additional_links = [] \<rparr>"

text \<open>A links cell with a repeated label, a link without text and one without target.\<close>

definition sample_links_cell :: Cell where
  "sample_links_cell = \<lparr> cell_text = ''FB RA FB'',
      cell_links = [\<lparr> link_text = ''FB'', href = Some ''/first'' \<rparr>,
                    \<lparr> link_text = ''RA'', href = Some ''https://ra.co/e/1'' \<rparr>,
                    \<lparr> link_text = ''FB'', href = Some ''/second'' \<rparr>,
                    \<lparr> link_text = '''', href = Some ''/icon'' \<rparr>,
                    \<lparr> link_text = ''RA'', href = None \<rparr>] \<rparr>"

text \<open>Concrete rows: a complete event row, one without title, one without \<open>@\<close>, a header
  row and a row whose title is a hyperlink.\<close>

definition sample_region :: Region where
  "sample_region = \<lparr> key = ''seattle'', name = ''Seattle'', filename = ''eventlisting_Seattle.php'' \<rparr>"

definition text_cell :: "string \<Rightarrow> Cell" where
  "text_cell s = \<lparr> cell_text = s, cell_links = [] \<rparr>"

definition sample_row :: "Cell list" where
  "sample_row = [text_cell ''Sat: Nov 8 (9pm-2am)'', text_cell ''Night Shift @ Club X (San Francisco)'',
                 text_cell ''techno, house'', text_cell ''$10-15 | 21+'', text_cell ''Deep Crew'',
                 text_cell '''']"

definition sample_row_untitled :: "Cell list" where
  "sample_row_untitled = [text_cell ''Sat: Nov 8 (9pm-2am)'', text_cell ''@ Club X'',
                 text_cell ''techno'', text_cell ''$10 | 21+'', text_cell ''Crew'',
                 text_cell '''']"

definition sample_row_plain :: "Cell list" where
  "sample_row_plain = [text_cell ''Fri: Nov 7 (10pm)'', text_cell ''Warehouse party'',
                 text_cell ''dnb'', text_cell ''free'', text_cell '''',
                 text_cell '''']"

definition sample_row_header :: "Cell list" where
  "sample_row_header = [text_cell ''Date/Time'', text_cell ''Event Title @ Venue'',
                 text_cell ''Tags'', text_cell ''Price | Age'', text_cell ''Organizers'',
                 text_cell ''Links'']"

definition sample_row_linked :: "Cell list" where
  "sample_row_linked = [text_cell ''Sat: Nov 8 (9pm-2am)'',
                 \<lparr> cell_text = ''Night Shift @ Club X'',
                   cell_links = [\<lparr> link_text = ''Night Shift'', href = Some ''/event/1'' \<rparr>] \<rparr>,
                 text_cell ''techno'', text_cell ''$10 | 21+'', text_cell ''Crew'',
                 text_cell '''']"

text \<open>
  Inputs with characters beyond ASCII: a title cell that reads \<open>T @ Club X (SF)\<close> with
  no-break spaces (\<open>0xA0\<close>) after \<open>T\<close> and after \<open>Club X\<close>, a row with this cell, and an
  event whose title is \<open>CAF\<close> followed by the capital E with acute accent (\<open>0xC9\<close>).
\<close>

definition sample_cell_nbsp :: Cell where
  "sample_cell_nbsp = text_cell (''T'' @ [CHR 0xA0] @ ''@ Club X'' @ [CHR 0xA0] @ ''(SF)'')"

definition sample_row_nbsp :: "Cell list" where
  "sample_row_nbsp = [text_cell ''Sat: Nov 8 (9pm-2am)'', sample_cell_nbsp,
                 text_cell ''techno'', text_cell ([CHR 0xE9] @ ''21+''), text_cell ''Crew'',
                 text_cell '''']"

definition sample_latin1_event :: Event where
  "sample_latin1_event = \<lparr> date = ''Sat: Nov 8'', time = ''9pm'', title = ''CAF'' @ [CHR 0xC9],
      venue = ''Club X'', location = ''Seattle'', genres = [], price = None,
      age_restriction = None, organizers = [], url = None, additional_links = [] \<rparr>"

section \<open>Pagination arithmetic\<close>

lemma ceiling_div_pos:
  assumes "0 < (b::int)" shows "\<lceil>real_of_int a / real_of_int b\<rceil> = (a + b - 1) div b"
proof -
  have split: "b * (a div b) + a mod b = a" by (rule mult_div_mod_eq)
  have m: "0 \<le> a mod b" "a mod b < b" using assms by simp_all
  have "- (- a div b) = (a + b - 1) div b"
  proof (cases "a mod b = 0")
    case True
    have "a + b - 1 = b * (a div b) + (b - 1)" using True split by simp
    then have "(a + b - 1) div b = a div b"
      using assms by (intro int_div_pos_eq[where r = "b - 1"]) simp_all
    moreover have "- a div b = - (a div b)" using True assms by (simp add: zdiv_zminus1_eq_if)
    ultimately show ?thesis by simp
  next
    case False
    have "a + b - 1 = b * (a div b + 1) + (a mod b - 1)" using split by (simp add: algebra_simps)
    then have "(a + b - 1) div b = a div b + 1"
      using assms m False by (intro int_div_pos_eq[where r = "a mod b - 1"]) simp_all
    moreover have "- a div b = - (a div b) - 1" using False assms by (simp add: zdiv_zminus1_eq_if)
    ultimately show ?thesis by simp
  qed
  then show ?thesis by (simp add: ceiling_divide_eq_div)
qed

lemma py_slice_nonneg:
  "0 \<le> a \<Longrightarrow> 0 \<le> b \<Longrightarrow> py_slice xs a (a + b) = take (nat b) (drop (nat a) xs)"
  unfolding py_slice_def py_slice_bound_def Let_def
  by (auto simp: min_def max_def)

lemma paginate_events_fields:
  "page (paginate_events evs pg psize) = max 1 pg"
  "page_size (paginate_events evs pg psize) = psize"
  "total_events (paginate_events evs pg psize) = int (length evs)"
  "events (paginate_events evs pg psize) =
     py_slice evs ((max 1 pg - 1) * psize) ((max 1 pg - 1) * psize + psize)"
  "has_more (paginate_events evs pg psize) = (max 1 pg * psize < int (length evs))"
  by (simp_all add: paginate_events_def Let_def algebra_simps)

lemma paginate_events_take_drop:
  assumes "0 \<le> psize"
  shows "events (paginate_events evs pg psize) =
     take (nat psize) (drop (nat ((max 1 pg - 1) * psize)) evs)"
  using assms by (simp add: paginate_events_fields py_slice_nonneg)

lemma paginate_events_120:
  assumes "length evs = 120"
  shows "length (events (paginate_events evs 1 50)) = 50"
    and "has_more (paginate_events evs 1 50)"
    and "length (events (paginate_events evs 3 50)) = 20"
    and "\<not> has_more (paginate_events evs 3 50)"
    and "paginate_events evs 0 50 = paginate_events evs 1 50"
    and "events (paginate_events evs 10 50) = []"
    and "\<not> has_more (paginate_events evs 10 50)"
    and "total_events (paginate_events evs 10 50) = 120"
  using assms
  by (simp_all add: paginate_events_take_drop paginate_events_fields(1,2,3,5))

text \<open>
  C2 (paginator contract).  For every event list, requested page and page size the paginator
  clamps the page to at least 1, returns the Python slice
  \<open>events[(page-1)*page_size : (page-1)*page_size + page_size]\<close> (for a non-negative page
  size this is \<open>take page_size (drop ((page-1)*page_size) events)\<close>), reports the length of
  the whole list as \<open>total_events\<close> and sets \<open>has_more\<close> exactly when
  \<open>page * page_size < total_events\<close> for the clamped page.  With 120 events and page size
  50: page 1 has 50 items and more to come, page 3 has 20 items and no more, page 0 gives
  the same result as page 1, and page 10 is an empty slice with \<open>has_more\<close> false and
  \<open>total_events\<close> still 120.  The paginator is a total function: no page raises.
\<close>

theorem paginate_events_contract:
  "page (paginate_events evs pg psize) = max 1 pg
   \<and> events (paginate_events evs pg psize) =
       py_slice evs ((max 1 pg - 1) * psize) ((max 1 pg - 1) * psize + psize)
   \<and> total_events (paginate_events evs pg psize) = int (length evs)
   \<and> has_more (paginate_events evs pg psize) = (max 1 pg * psize < int (length evs))
   \<and> (0 \<le> psize \<longrightarrow> events (paginate_events evs pg psize) =
         take (nat psize) (drop (nat ((max 1 pg - 1) * psize)) evs))
   \<and> (length evs = 120 \<longrightarrow>
         length (events (paginate_events evs 1 50)) = 50
       \<and> has_more (paginate_events evs 1 50)
       \<and> length (events (paginate_events evs 3 50)) = 20
       \<and> \<not> has_more (paginate_events evs 3 50)
       \<and> paginate_events evs 0 50 = paginate_events evs 1 50
       \<and> events (paginate_events evs 10 50) = []
       \<and> \<not> has_more (paginate_events evs 10 50)
       \<and> total_events (paginate_events evs 10 50) = 120)"
  using paginate_events_fields [of evs pg psize] paginate_events_take_drop [of psize evs pg]
    paginate_events_120 [of evs]
  by blast

theorem paginate_events_contract_witness:
  "length (replicate 120 sample_event) = 120
   \<and> length (events (paginate_events (replicate 120 sample_event) 3 50)) = 20
   \<and> \<not> has_more (paginate_events (replicate 120 sample_event) 3 50)
   \<and> events (paginate_events (replicate 120 sample_event) 10 50) = []
   \<and> page (paginate_events (replicate 120 sample_event) 0 50) = 1
   \<and> (0::int) \<le> 50
   \<and> events (paginate_events (replicate 120 sample_event) 3 50)
       = take 50 (drop 100 (replicate 120 sample_event))"
proof -
  have len: "length (replicate 120 sample_event) = 120" by simp
  have clamp: "max 1 (0::int) = 1" by simp
  have nonneg: "(0::int) \<le> 50" by simp
  note c3 = paginate_events_contract [of "replicate 120 sample_event" 3 50]
  note c0 = paginate_events_contract [of "replicate 120 sample_event" 0 50]
  from c3 len have "length (events (paginate_events (replicate 120 sample_event) 3 50)) = 20"
    and "\<not> has_more (paginate_events (replicate 120 sample_event) 3 50)"
    and "events (paginate_events (replicate 120 sample_event) 10 50) = []"
    by blast+
  moreover from c0 have "page (paginate_events (replicate 120 sample_event) 0 50) = max 1 0"
    by (rule conjunct1)
  then have "page (paginate_events (replicate 120 sample_event) 0 50) = 1"
    by (simp only: clamp)
  moreover from c3 nonneg have "events (paginate_events (replicate 120 sample_event) 3 50)
       = take (nat 50) (drop (nat ((max 1 3 - 1) * 50)) (replicate 120 sample_event))"
    by blast
  then have "events (paginate_events (replicate 120 sample_event) 3 50)
       = take 50 (drop 100 (replicate 120 sample_event))"
    by simp
  ultimately show ?thesis using len nonneg by blast
qed

lemma int_div_less_iff:
  assumes "0 < (b::int)"
  shows "a div b < m \<longleftrightarrow> a < m * b"
proof
  have split: "b * (a div b) + a mod b = a" by (rule mult_div_mod_eq)
  have r: "0 \<le> a mod b" "a mod b < b" using assms by simp_all
  {
    assume "a div b < m"
    then have "a div b \<le> m - 1" by simp
    then have "b * (a div b) \<le> b * (m - 1)" using assms by (intro mult_left_mono) simp_all
    then have "b * (a div b) \<le> m * b - b" by (simp add: algebra_simps)
    with split r show "a < m * b" by linarith
  }
  {
    assume lt: "a < m * b"
    show "a div b < m"
    proof (rule ccontr)
      assume "\<not> a div b < m"
      then have "m \<le> a div b" by simp
      then have "b * m \<le> b * (a div b)" using assms by (intro mult_left_mono) simp_all
      then have "m * b \<le> b * (a div b)" by (simp add: mult.commute)
      with split r lt show False by linarith
    qed
  }
qed

lemma total_pages_pos:
  assumes "0 < page_size p"
  shows "total_pages p = Inr (max 1 ((total_events p + page_size p - 1) div page_size p))"
  using assms by (simp add: total_pages_def py_floordiv_def)

text \<open>
  C5 (page count), as amended: for every EventPage whose page size is positive,
  \<open>total_pages\<close> returns \<open>max(1, ceil(total_events / page_size))\<close>; in particular it
  returns 1, not 0, when \<open>total_events = 0\<close>.
\<close>

theorem total_pages_ceiling:
  assumes "0 < page_size p"
  shows "total_pages p = Inr (spec_total_pages (total_events p) (page_size p))
    \<and> (total_events p = 0 \<longrightarrow> total_pages p = Inr 1)"
  using assms by (simp add: total_pages_pos spec_total_pages_def ceiling_div_pos div_pos_pos_trivial)

text \<open>
  Without the restriction to positive page sizes the equation fails: the paginator accepts
  page size \<open>-1\<close>, and on the page it then builds from an empty list \<open>total_pages\<close> is
  \<open>max(1, (0 - 1 - 1) // -1) = 2\<close>, while \<open>max(1, ceil(0 / -1)) = 1\<close>.
\<close>

theorem total_pages_ceiling_counterexample:
  "total_pages (paginate_events [] 1 (- 1)) = Inr 2
   \<and> total_events (paginate_events [] 1 (- 1)) = 0
   \<and> spec_total_pages 0 (- 1) = 1"
  by (simp add: total_pages_def py_floordiv_def paginate_events_fields spec_total_pages_def)

theorem total_pages_ceiling_witness:
  "0 < page_size (paginate_events (replicate 120 sample_event) 3 50)
   \<and> total_pages (paginate_events (replicate 120 sample_event) 3 50) = Inr 3
   \<and> spec_total_pages 120 50 = 3
   \<and> 0 < page_size (paginate_events [] 1 50)
   \<and> total_events (paginate_events [] 1 50) = 0
   \<and> total_pages (paginate_events [] 1 50) = Inr 1"
  using total_pages_ceiling [of "paginate_events (replicate 120 sample_event) 3 50"]
    total_pages_ceiling [of "paginate_events [] 1 50"]
  by (simp add: paginate_events_fields spec_total_pages_def)

text \<open>
  C4 (slice bound), as amended: for every event list, requested page and positive page
  size, the page's slice has at most \<open>page_size\<close> items, \<open>total_pages\<close> is defined, and
  the slice is empty if and only if the event list is empty or the clamped page is beyond
  \<open>total_pages\<close>.
\<close>

theorem paginate_events_slice_bound:
  assumes "0 < psize"
  shows "length (events (paginate_events evs pg psize)) \<le> nat psize
    \<and> (\<exists>tp. total_pages (paginate_events evs pg psize) = Inr tp
         \<and> (events (paginate_events evs pg psize) = [] \<longleftrightarrow>
              evs = [] \<or> tp < page (paginate_events evs pg psize)))"
proof -
  let ?P = "paginate_events evs pg psize"
  let ?n = "int (length evs)"
  let ?k = "(max 1 pg - 1) * psize"
  have k0: "0 \<le> ?k" using assms by simp
  have ev: "events ?P = take (nat psize) (drop (nat ?k) evs)"
    using assms by (simp add: paginate_events_take_drop)
  have len: "length (events ?P) \<le> nat psize" by (simp add: ev)
  have tp: "total_pages ?P = Inr (max 1 ((?n + psize - 1) div psize))"
    using assms by (simp add: total_pages_pos paginate_events_fields)
  have empty: "events ?P = [] \<longleftrightarrow> ?n \<le> ?k"
    using assms by (simp add: ev le_nat_iff[OF k0])
  have "?n \<le> ?k \<longleftrightarrow> evs = [] \<or> max 1 ((?n + psize - 1) div psize) < max 1 pg"
  proof (cases "evs = []")
    case True
    then show ?thesis using k0 by simp
  next
    case False
    then have npos: "0 < ?n" by simp
    have "psize \<le> ?n + psize - 1" using npos by simp
    then have "psize div psize \<le> (?n + psize - 1) div psize"
      using assms by (intro zdiv_mono1) simp_all
    then have ge1: "1 \<le> (?n + psize - 1) div psize" using assms by simp
    have "(?n + psize - 1) div psize < max 1 pg \<longleftrightarrow> ?n + psize - 1 < max 1 pg * psize"
      using assms by (rule int_div_less_iff)
    also have "\<dots> \<longleftrightarrow> ?n \<le> ?k" by (simp add: algebra_simps) linarith
    finally show ?thesis using False ge1 by (simp add: max_def)
  qed
  with empty tp len show ?thesis
    by (simp add: paginate_events_fields)
qed

text \<open>
  The empty event list is the exception the amendment adds: its page 1 is empty although
  \<open>total_pages\<close> is 1, so page 1 is not beyond the last page.
\<close>

theorem paginate_events_slice_bound_counterexample:
  "events (paginate_events [] 1 50) = []
   \<and> page (paginate_events [] 1 50) = 1
   \<and> total_pages (paginate_events [] 1 50) = Inr 1"
  by (simp add: paginate_events_fields py_slice_def total_pages_def py_floordiv_def)

theorem paginate_events_slice_bound_witness:
  "(0::int) < 50
   \<and> length (events (paginate_events (replicate 120 sample_event) 4 50)) \<le> 50
   \<and> total_pages (paginate_events (replicate 120 sample_event) 4 50) = Inr 3
   \<and> events (paginate_events (replicate 120 sample_event) 4 50) = []"
  using paginate_events_slice_bound [of 50 "replicate 120 sample_event" 4]
  by (simp add: total_pages_pos paginate_events_fields(1,2,3))

text \<open>
  C10 (unguarded division).  \<open>total_pages\<close> raises \<open>ZeroDivisionError\<close> exactly when the
  page size is 0, and raises nothing else.  The paginator does not validate the page size:
  called with page size 0 it returns an EventPage whose \<open>page_size\<close> is 0, and
  \<open>total_pages\<close> of that page raises.
\<close>

theorem total_pages_zero_division:
  "(total_pages p = Inl ZeroDivisionError \<longleftrightarrow> page_size p = 0)
   \<and> (\<forall>e. total_pages p = Inl e \<longrightarrow> e = ZeroDivisionError)
   \<and> page_size (paginate_events evs pg 0) = 0
   \<and> total_pages (paginate_events evs pg 0) = Inl ZeroDivisionError"
  by (simp add: total_pages_def py_floordiv_def paginate_events_fields)

theorem total_pages_zero_division_witness:
  "total_pages (paginate_events (replicate 120 sample_event) 1 0) = Inl ZeroDivisionError
   \<and> total_pages \<lparr> events = [], page = 1, page_size = 0, total_events = 0, has_more = False \<rparr>
       = Inl ZeroDivisionError"
  using total_pages_zero_division [of "\<lparr> events = [], page = 1, page_size = 0, total_events = 0, has_more = False \<rparr>"
         "replicate 120 sample_event" 1]
  by simp

section \<open>The search filter\<close>

lemma str_in_sublist: "str_in xs ys \<longleftrightarrow> sublist xs ys"
  by (induction ys) (simp_all add: sublist_Cons_right)

lemma str_in_single: "str_in [c] s \<longleftrightarrow> c \<in> set s"
  by (induction s) auto

lemma is_upper_char_lower: "\<not> is_upper (char_lower c)"
proof (cases "is_upper c")
  case False
  then show ?thesis by (simp add: char_lower_def)
next
  case True
  define n where "n = (of_char c :: nat)"
  from True have r: "(65 \<le> n \<and> n \<le> 90) \<or> (192 \<le> n \<and> n \<le> 214) \<or> (216 \<le> n \<and> n \<le> 222)"
    by (simp add: is_upper_def in_ranges_def n_def)
  then have lt: "n + 32 < 256" by arith
  from lt have m: "(n + 32) mod 256 = n + 32" by simp
  have "\<not> is_upper (char_of (n + 32))"
    using r by (auto simp: is_upper_def in_ranges_def m)
  then show ?thesis using True by (simp add: char_lower_def n_def)
qed

lemma char_lower_idem: "char_lower (char_lower c) = char_lower c"
  using is_upper_char_lower [of c] by (simp add: char_lower_def [of "char_lower c"])

lemma str_lower_idem: "str_lower (str_lower s) = str_lower s"
  by (simp add: str_lower_def char_lower_idem)

lemma matches_search_sublist:
  "matches_search ev search_term \<longleftrightarrow>
      sublist (str_lower search_term) (str_lower (title ev))
      \<or> sublist (str_lower search_term) (str_lower (venue ev))
      \<or> (\<exists>g\<in>set (genres ev). sublist (str_lower search_term) (str_lower g))
      \<or> (\<exists>org\<in>set (organizers ev). sublist (str_lower search_term) (str_lower org))"
  by (simp add: matches_search_def Let_def str_in_sublist list_ex_iff)

text \<open>
  C7 (search filter).  For every event and search term, \<open>matches_search\<close> is true if and
  only if the lower-cased term is a contiguous substring of the lower-cased title, of the
  lower-cased venue, of some lower-cased genre or of some lower-cased organizer.  The
  comparison ignores case: lower-casing the term, replacing it by any term with the same
  lower-case form, or lower-casing the title, venue, genres and organizers never changes the
  answer.  The date, time, location, price, age restriction, URL and additional links play
  no part: changing them never changes the answer.
\<close>

theorem matches_search_iff:
  "(matches_search ev search_term \<longleftrightarrow>
      sublist (str_lower search_term) (str_lower (title ev))
      \<or> sublist (str_lower search_term) (str_lower (venue ev))
      \<or> (\<exists>g\<in>set (genres ev). sublist (str_lower search_term) (str_lower g))
      \<or> (\<exists>org\<in>set (organizers ev). sublist (str_lower search_term) (str_lower org)))
   \<and> matches_search (ev\<lparr> date := d, time := t, location := loc, price := p,
          age_restriction := a, url := u, additional_links := al \<rparr>) search_term
       = matches_search ev search_term
   \<and> matches_search ev (str_lower search_term) = matches_search ev search_term
   \<and> (str_lower other_term = str_lower search_term \<longrightarrow>
         matches_search ev other_term = matches_search ev search_term)
   \<and> matches_search (ev\<lparr> title := str_lower (title ev), venue := str_lower (venue ev),
          genres := map str_lower (genres ev),
          organizers := map str_lower (organizers ev) \<rparr>) search_term
       = matches_search ev search_term"
proof (intro conjI impI)
  show "matches_search ev search_term \<longleftrightarrow>
      sublist (str_lower search_term) (str_lower (title ev))
      \<or> sublist (str_lower search_term) (str_lower (venue ev))
      \<or> (\<exists>g\<in>set (genres ev). sublist (str_lower search_term) (str_lower g))
      \<or> (\<exists>org\<in>set (organizers ev). sublist (str_lower search_term) (str_lower org))"
    by (rule matches_search_sublist)
  show "matches_search (ev\<lparr> date := d, time := t, location := loc, price := p,
          age_restriction := a, url := u, additional_links := al \<rparr>) search_term
       = matches_search ev search_term"
    by (simp add: matches_search_def)
  show "matches_search ev (str_lower search_term) = matches_search ev search_term"
    by (simp add: matches_search_def str_lower_idem)
  show "matches_search ev other_term = matches_search ev search_term"
    if "str_lower other_term = str_lower search_term"
    using that by (simp add: matches_search_def)
  show "matches_search (ev\<lparr> title := str_lower (title ev), venue := str_lower (venue ev),
          genres := map str_lower (genres ev),
          organizers := map str_lower (organizers ev) \<rparr>) search_term
       = matches_search ev search_term"
    by (simp add: matches_search_def Let_def str_lower_idem list_ex_iff)
qed

theorem matches_search_iff_witness:
  "matches_search sample_filter_event ''SHIFT''
   \<and> matches_search sample_filter_event ''club''
   \<and> matches_search sample_filter_event ''tech''
   \<and> matches_search sample_filter_event ''deep''
   \<and> \<not> matches_search sample_filter_event ''sat''
   \<and> \<not> matches_search sample_filter_event ''free''
   \<and> \<not> matches_search sample_filter_event ''21+''
   \<and> \<not> matches_search (sample_filter_event\<lparr> date := ''Sun'', time := ''1am'',
          location := ''Miami'', price := None, age_restriction := Some ''18+'', url := None,
          additional_links := [] \<rparr>) ''sat''
   \<and> str_lower ''ABCDEFGHIJKLMNOPQRSTUVWXYZ 09_$'' = ''abcdefghijklmnopqrstuvwxyz 09_$''
   \<and> str_lower (''CAF'' @ [CHR 0xC9, CHR 0xD7, CHR 0xDF]) = ''caf'' @ [CHR 0xE9, CHR 0xD7, CHR 0xDF]
   \<and> str_lower (''Caf'' @ [CHR 0xE9]) = str_lower (''caf'' @ [CHR 0xE9])
   \<and> matches_search sample_latin1_event (''caf'' @ [CHR 0xE9])
   \<and> matches_search sample_latin1_event (''Caf'' @ [CHR 0xE9])"
proof -
  have "\<not> matches_search sample_filter_event ''sat''"
    by code_simp
  moreover have "matches_search sample_filter_event ''SHIFT''"
    "matches_search sample_filter_event ''club''"
    "matches_search sample_filter_event ''tech''"
    "matches_search sample_filter_event ''deep''"
    "\<not> matches_search sample_filter_event ''free''"
    "\<not> matches_search sample_filter_event ''21+''"
    by code_simp+
  moreover have l1: "matches_search sample_latin1_event (''caf'' @ [CHR 0xE9])"
    by code_simp
  moreover have lw: "str_lower ''ABCDEFGHIJKLMNOPQRSTUVWXYZ 09_$'' = ''abcdefghijklmnopqrstuvwxyz 09_$''"
    "str_lower (''CAF'' @ [CHR 0xC9, CHR 0xD7, CHR 0xDF]) = ''caf'' @ [CHR 0xE9, CHR 0xD7, CHR 0xDF]"
    "str_lower (''Caf'' @ [CHR 0xE9]) = str_lower (''caf'' @ [CHR 0xE9])"
    by code_simp+
  moreover have "matches_search sample_latin1_event (''Caf'' @ [CHR 0xE9])"
    using matches_search_iff [where ev = sample_latin1_event
        and search_term = "''caf'' @ [CHR 0xE9]" and other_term = "''Caf'' @ [CHR 0xE9]"]
      lw(3) l1 by blast
  moreover have "\<not> matches_search (sample_filter_event\<lparr> date := ''Sun'', time := ''1am'',
          location := ''Miami'', price := None, age_restriction := Some ''18+'', url := None,
          additional_links := [] \<rparr>) ''sat''"
    using matches_search_iff [where ev = sample_filter_event and search_term = "''sat''"
        and d = "''Sun''" and t = "''1am''" and loc = "''Miami''" and p = None
        and a = "Some ''18+''" and u = None and al = "[]"]
      \<open>\<not> matches_search sample_filter_event ''sat''\<close>
    by blast
  ultimately show ?thesis by blast
qed

section \<open>Additional links\<close>

lemma make_absolute_url_None: "make_absolute_url u = None \<longleftrightarrow> u = []"
  by (simp add: make_absolute_url_def)

lemma link_usable_iff:
  "link_usable l \<longleftrightarrow> link_text l \<noteq> [] \<and> make_absolute_url (attributes_get_href l) \<noteq> None"
  by (cases "href l") (simp_all add: link_usable_def make_absolute_url_None attributes_get_href_def)

lemma add_links_step:
  "add_links (l # ls) links =
     (if link_usable l
      then add_links ls (AList.update (link_text l) (the (make_absolute_url (attributes_get_href l))) links)
      else add_links ls links)"
  by (auto simp: link_usable_iff split: option.splits)

lemma map_of_add_links:
  "map_of (add_links ls links) k =
     (case rev (filter (\<lambda>l. link_usable l \<and> link_text l = k) ls) of
        [] \<Rightarrow> map_of links k
      | l # _ \<Rightarrow> make_absolute_url (attributes_get_href l))"
proof (induction ls arbitrary: links)
  case Nil
  then show ?case by simp
next
  case (Cons l ls)
  show ?case
  proof (cases "link_usable l")
    case True
    then obtain u where u: "make_absolute_url (attributes_get_href l) = Some u"
      by (auto simp: link_usable_iff)
    show ?thesis
      using True u Cons.IH [of "AList.update (link_text l) u links"]
      by (simp add: add_links_step update_conv' del: add_links.simps(2) split: list.splits)
  next
    case False
    then show ?thesis
      using Cons.IH [of links] by (simp add: add_links_step del: add_links.simps(2))
  qed
qed

lemma distinct_add_links:
  "distinct (map fst links) \<Longrightarrow> distinct (map fst (add_links ls links))"
  by (induction ls arbitrary: links)
     (simp_all add: add_links_step distinct_update del: add_links.simps(2))

text \<open>
  C9 (additional links).  An absent cell gives the empty mapping.  For a cell, the mapping
  has each key once, and its value at a label is the resolved URL of the last hyperlink of
  the cell that has this label as its non-empty visible text and a resolvable (present,
  non-empty) \<open>href\<close>; a label no such hyperlink carries is not a key.  So the mapping holds
  exactly the usable hyperlinks, and of two with the same text the later one.  Resolving
  leaves an \<open>href\<close> that starts with \<open>http\<close> unchanged, puts the base origin before one
  that starts with \<open>/\<close>, and passes any other one through as it is.
\<close>

theorem extract_additional_links_map:
  "extract_additional_links None = []
   \<and> distinct (map fst (extract_additional_links (Some cell)))
   \<and> map_of (extract_additional_links (Some cell)) k =
       (case rev (filter (\<lambda>l. link_usable l \<and> link_text l = k) (cell_links cell)) of
          [] \<Rightarrow> None
        | l # _ \<Rightarrow> make_absolute_url (attributes_get_href l))
   \<and> (\<forall>l \<in> set (cell_links cell). \<forall>h. href l = Some h \<longrightarrow>
         make_absolute_url (attributes_get_href l) =
           (if h = [] then None
            else if prefix ''http'' h then Some h
            else if prefix ''/'' h then Some (BASE_URL @ h)
            else Some h))"
  using map_of_add_links [of "cell_links cell" "[]" k] distinct_add_links [of "[]" "cell_links cell"]
  by (simp add: extract_additional_links_def make_absolute_url_def attributes_get_href_def
        split: list.splits)

theorem extract_additional_links_map_witness:
  "extract_additional_links (Some sample_links_cell) =
      [(''FB'', ''https://19hz.info/second''), (''RA'', ''https://ra.co/e/1'')]
   \<and> map_of (extract_additional_links (Some sample_links_cell)) ''FB''
       = Some ''https://19hz.info/second''
   \<and> map_of (extract_additional_links (Some sample_links_cell)) '''' = None"
proof -
  have ev: "extract_additional_links (Some sample_links_cell) =
      [(''FB'', ''https://19hz.info/second''), (''RA'', ''https://ra.co/e/1'')]"
    by code_simp
  have fb: "rev (filter (\<lambda>l. link_usable l \<and> link_text l = ''FB'') (cell_links sample_links_cell))
      = [\<lparr> link_text = ''FB'', href = Some ''/second'' \<rparr>,
         \<lparr> link_text = ''FB'', href = Some ''/first'' \<rparr>]"
    by (simp add: sample_links_cell_def link_usable_def)
  have no: "rev (filter (\<lambda>l. link_usable l \<and> link_text l = '''') (cell_links sample_links_cell))
      = []"
    by (simp add: sample_links_cell_def link_usable_def)
  have abs: "make_absolute_url (attributes_get_href \<lparr> link_text = ''FB'', href = Some ''/second'' \<rparr>)
      = Some ''https://19hz.info/second''"
    by (simp add: make_absolute_url_def attributes_get_href_def BASE_URL_def)
  from extract_additional_links_map [of sample_links_cell "''FB''"]
  have "map_of (extract_additional_links (Some sample_links_cell)) ''FB''
       = Some ''https://19hz.info/second''"
    by (simp only: fb abs list.case)
  moreover from extract_additional_links_map [of sample_links_cell "''''"]
  have "map_of (extract_additional_links (Some sample_links_cell)) '''' = None"
    by (simp only: no list.case)
  ultimately show ?thesis using ev by simp
qed

section \<open>Searching with a pattern\<close>

lemma prev_at_Cons: "prev_at prev (c # before) = prev_at (Some c) before"
  by (simp add: prev_at_def)

lemma re_search_None_iff:
  "re_search pat prev s = None \<longleftrightarrow> (\<forall>before x. s = before @ x \<longrightarrow> pat (prev_at prev before) x = None)"
proof (induction s arbitrary: prev)
  case Nil
  then show ?case by (auto simp: prev_at_def split: option.splits)
next
  case (Cons c cs)
  have "(\<forall>before x. c # cs = before @ x \<longrightarrow> pat (prev_at prev before) x = None) \<longleftrightarrow>
        pat prev (c # cs) = None \<and> (\<forall>before x. cs = before @ x \<longrightarrow> pat (prev_at (Some c) before) x = None)"
    (is "?L \<longleftrightarrow> ?R")
  proof
    assume L: ?L
    have "pat prev (c # cs) = None" using L [rule_format, of "[]" "c # cs"] by (simp add: prev_at_def)
    moreover have "pat (prev_at (Some c) before) x = None" if "cs = before @ x" for before x
      using L [rule_format, of "c # before" x] that by (simp add: prev_at_Cons)
    ultimately show ?R by blast
  next
    assume R: ?R
    show ?L
    proof (intro allI impI)
      fix before x assume eq: "c # cs = before @ x"
      show "pat (prev_at prev before) x = None"
      proof (cases before)
        case Nil
        then show ?thesis using R eq by (simp add: prev_at_def)
      next
        case (Cons b bs)
        then show ?thesis using R eq by (simp add: prev_at_Cons)
      qed
    qed
  qed
  then show ?case using Cons.IH [of "Some c"]
    by (auto split: option.splits)
qed

lemma re_search_Cons_Some:
  assumes "re_search pat prev (c # cs) = Some (before, grp, after)"
  shows "(\<exists>n. pat prev (c # cs) = Some n \<and> before = [] \<and> grp = take n (c # cs) \<and> after = drop n (c # cs))
       \<or> (pat prev (c # cs) = None \<and> (\<exists>b'. before = c # b' \<and> re_search pat (Some c) cs = Some (b', grp, after)))"
  using assms by (auto split: option.splits)

lemma re_search_Some_append:
  "re_search pat prev s = Some (before, grp, after) \<Longrightarrow> s = before @ grp @ after"
proof (induction s arbitrary: prev before)
  case Nil
  then show ?case by (auto split: option.splits)
next
  case (Cons c cs)
  from re_search_Cons_Some [OF Cons.prems] show ?case
    using Cons.IH by auto
qed

lemma re_search_Some_match:
  "re_search pat prev s = Some (before, grp, after) \<Longrightarrow>
     \<exists>n. pat (prev_at prev before) (grp @ after) = Some n \<and> grp = take n (grp @ after)"
proof (induction s arbitrary: prev before)
  case Nil
  then show ?case by (auto simp: prev_at_def split: option.splits)
next
  case (Cons c cs)
  from re_search_Cons_Some [OF Cons.prems] show ?case
  proof (elim disjE exE conjE)
    fix n assume "pat prev (c # cs) = Some n" "before = []" "grp = take n (c # cs)"
      "after = drop n (c # cs)"
    then show ?thesis by (simp add: prev_at_def)
  next
    fix b' assume "before = c # b'" "re_search pat (Some c) cs = Some (b', grp, after)"
    then show ?thesis using Cons.IH [of "Some c" b'] by (simp add: prev_at_Cons)
  qed
qed

lemma re_search_Some_first:
  "re_search pat prev s = Some (before, grp, after) \<Longrightarrow> s = b @ x \<Longrightarrow>
     length b < length before \<Longrightarrow> pat (prev_at prev b) x = None"
proof (induction s arbitrary: prev before b)
  case Nil
  then show ?case by (auto split: option.splits)
next
  case (Cons c cs)
  from re_search_Cons_Some [OF Cons.prems(1)] show ?case
  proof (elim disjE exE conjE)
    fix n assume "before = []"
    then show ?thesis using Cons.prems(3) by simp
  next
    fix b' assume none: "pat prev (c # cs) = None" and bf: "before = c # b'"
      and r: "re_search pat (Some c) cs = Some (b', grp, after)"
    show ?thesis
    proof (cases b)
      case Nil
      then show ?thesis using none Cons.prems(2) by (simp add: prev_at_def)
    next
      case (Cons y ys)
      then have "cs = ys @ x" "y = c" "length ys < length b'"
        using Cons.prems(2,3) bf by auto
      then show ?thesis using Cons.IH [OF r, of ys] Cons by (simp add: prev_at_Cons)
    qed
  qed
qed

section \<open>The row-validity gate\<close>

lemma find_SomeD: "find P xs = Some x \<Longrightarrow> x \<in> set xs \<and> P x"
  by (induction xs) (auto split: if_splits)

lemma DATE_PATTERN_None_iff:
  "DATE_PATTERN prev x = None \<longleftrightarrow> \<not> (\<exists>tok\<in>set weekday_tokens. prefix tok x)"
  by (auto simp: DATE_PATTERN_def find_None_iff dest: find_SomeD split: option.splits)

lemma DATE_PATTERN_Some:
  assumes "DATE_PATTERN prev x = Some n"
  shows "3 \<le> n" and "n \<le> length x"
proof -
  from assms obtain tok where f: "find (\<lambda>tok. prefix tok x) weekday_tokens = Some tok"
    and n: "n = length tok + length (takeWhile (\<lambda>c. c \<noteq> CHR 0x0A) (drop (length tok) x))"
    by (auto simp: DATE_PATTERN_def split: option.splits)
  from f have tok: "tok \<in> set weekday_tokens" "prefix tok x"
    by (auto dest: find_SomeD)
  from tok(1) have l3: "length tok = 3" by (auto simp: weekday_tokens_def)
  from tok(2) have "length tok \<le> length x" by (rule prefix_length_le)
  moreover have "length (takeWhile (\<lambda>c. c \<noteq> CHR 0x0A) (drop (length tok) x)) \<le> length x - length tok"
    using length_takeWhile_le [of "\<lambda>c. c \<noteq> CHR 0x0A" "drop (length tok) x"] by simp
  ultimately show "n \<le> length x" using n by simp
  show "3 \<le> n" using n l3 by simp
qed

lemma date_search_None_iff:
  "re_search DATE_PATTERN None text = None \<longleftrightarrow> \<not> contains_weekday text"
proof -
  have "contains_weekday text \<longleftrightarrow>
      (\<exists>before x. text = before @ x \<and> (\<exists>tok\<in>set weekday_tokens. prefix tok x))"
    by (auto simp: contains_weekday_def sublist_altdef' suffix_def)
  then show ?thesis
    by (simp add: re_search_None_iff DATE_PATTERN_None_iff)
qed

lemma date_search_nonempty:
  assumes "re_search DATE_PATTERN None text = Some (before, grp, after)"
  shows "grp \<noteq> []"
proof -
  from re_search_Some_match [OF assms] obtain n
    where n: "DATE_PATTERN (prev_at None before) (grp @ after) = Some n"
      and g: "grp = take n (grp @ after)" by blast
  from DATE_PATTERN_Some [OF n] have "3 \<le> n" "n \<le> length (grp @ after)" .
  then have "length (take n (grp @ after)) = n" by simp
  with g \<open>3 \<le> n\<close> show ?thesis by auto
qed

lemma extract_datetime_None_iff:
  "fst (extract_datetime cell) = None \<longleftrightarrow> \<not> contains_weekday (cell_text cell)"
  using date_search_None_iff [of "cell_text cell"]
  by (auto simp: extract_datetime_def Let_def split: option.splits)

lemma extract_datetime_Some:
  "fst (extract_datetime cell) = Some d \<Longrightarrow> d \<noteq> []"
  by (auto simp: extract_datetime_def Let_def date_search_nonempty split: option.splits)

section \<open>The title and venue extractors\<close>

lemma str_split_Cons: "\<exists>ws. str_split sep s = takeWhile (\<lambda>c. c \<noteq> sep) s # ws"
  by (induction s) (auto split: list.splits)

lemma str_split_max_1:
  "sep \<in> set s \<Longrightarrow>
     str_split_max sep (Suc 0) s = [takeWhile (\<lambda>c. c \<noteq> sep) s, tl (dropWhile (\<lambda>c. c \<noteq> sep) s)]"
  by (induction s) (auto split: list.splits)

lemma py_index_0: "py_index (x # xs) 0 = Inr x"
  by (simp add: py_index_def)

lemma py_index_1: "py_index (x # y # xs) 1 = Inr y"
  by (simp add: py_index_def)

lemma extract_title_and_url_eq:
  "extract_title_and_url cell =
     Inr (case cell_links cell of
            l # _ \<Rightarrow> (link_text l, make_absolute_url (attributes_get_href l))
          | [] \<Rightarrow> if CHR ''@'' \<in> set (cell_text cell)
                  then (str_strip (takeWhile (\<lambda>c. c \<noteq> CHR ''@'') (cell_text cell)), None)
                  else (''Event'', None))"
proof -
  obtain ws where "str_split CHR ''@'' (cell_text cell)
      = takeWhile (\<lambda>c. c \<noteq> CHR ''@'') (cell_text cell) # ws"
    using str_split_Cons by blast
  then show ?thesis
    by (simp add: extract_title_and_url_def Let_def str_in_single py_index_0 py_bind_def
          split: list.splits)
qed

lemma extract_venue_eq:
  "extract_venue cell =
     Inr (if CHR ''@'' \<in> set (cell_text cell)
          then str_strip (re_sub_empty VENUE_LOCATION_PATTERN None
                 (str_strip (tl (dropWhile (\<lambda>c. c \<noteq> CHR ''@'') (cell_text cell)))))
          else ''TBA'')"
  by (simp add: extract_venue_def Let_def str_in_single str_split_max_1 py_index_1 py_bind_def)

lemma parse_event_row_short:
  "length cells < 6 \<Longrightarrow> parse_event_row cells region = Inr None"
  by (simp add: parse_event_row_def MIN_CELLS_FOR_EVENT_def)

lemma parse_event_row_long:
  assumes "6 \<le> length cells"
  shows "parse_event_row cells region =
     (case extract_datetime (cells ! 0) of
        (None, _) \<Rightarrow> Inr None
      | (Some d, t) \<Rightarrow>
          Inr (Some \<lparr> date = d, time = t,
                 title = fst (projr (extract_title_and_url (cells ! 1))),
                 venue = projr (extract_venue (cells ! 1)),
                 location = name region,
                 genres = extract_genres (cells ! 2),
                 price = fst (extract_price_and_age (cells ! 3)),
                 age_restriction = snd (extract_price_and_age (cells ! 3)),
                 organizers = extract_organizers (cells ! 4),
                 url = snd (projr (extract_title_and_url (cells ! 1))),
                 additional_links = extract_additional_links (Some (cells ! 5)) \<rparr>))"
proof -
  have idx: "py_index cells 0 = Inr (cells ! 0)" "py_index cells 1 = Inr (cells ! 1)"
    "py_index cells 2 = Inr (cells ! 2)" "py_index cells 3 = Inr (cells ! 3)"
    "py_index cells 4 = Inr (cells ! 4)" "py_index cells 5 = Inr (cells ! 5)"
    using assms by (auto simp: py_index_def)
  show ?thesis
  proof (cases "extract_datetime (cells ! 0)")
    case (Pair dopt t)
    show ?thesis
    proof (cases dopt)
      case None
      then show ?thesis using Pair assms
        by (simp add: parse_event_row_def MIN_CELLS_FOR_EVENT_def idx py_bind_def)
    next
      case (Some d)
      then have "d \<noteq> []" using Pair extract_datetime_Some [of "cells ! 0" d] by simp
      then show ?thesis using Pair Some assms
        by (simp add: parse_event_row_def MIN_CELLS_FOR_EVENT_def idx py_bind_def
              extract_title_and_url_eq extract_venue_eq split: prod.splits)
    qed
  qed
qed

text \<open>
  C1 (row-validity gate).  A row with fewer than 6 cells gives no event.  A row with at least
  6 cells whose first cell's text contains none of \<open>Mon\<close>, \<open>Tue\<close>, \<open>Wed\<close>, \<open>Thu\<close>,
  \<open>Fri\<close>, \<open>Sat\<close>, \<open>Sun\<close> (in exactly this spelling) gives no event.  A row with at least
  6 cells whose first cell's text contains one of them gives an event.  The parser raises in
  none of these cases: its result is never an error.
\<close>

theorem parse_event_row_gate:
  "(length cells < 6 \<longrightarrow> parse_event_row cells region = Inr None)
   \<and> (6 \<le> length cells \<and> \<not> contains_weekday (cell_text (cells ! 0)) \<longrightarrow>
        parse_event_row cells region = Inr None)
   \<and> (6 \<le> length cells \<and> contains_weekday (cell_text (cells ! 0)) \<longrightarrow>
        (\<exists>ev. parse_event_row cells region = Inr (Some ev)))
   \<and> (\<forall>e. parse_event_row cells region \<noteq> Inl e)"
proof -
  have short: "parse_event_row cells region = Inr None" if "length cells < 6"
    using that by (rule parse_event_row_short)
  have nodate: "parse_event_row cells region = Inr None"
    if "6 \<le> length cells" "\<not> contains_weekday (cell_text (cells ! 0))"
  proof -
    from that(2) have "fst (extract_datetime (cells ! 0)) = None"
      by (simp add: extract_datetime_None_iff)
    then show ?thesis using that(1)
      by (cases "extract_datetime (cells ! 0)") (simp add: parse_event_row_long)
  qed
  have dated: "\<exists>ev. parse_event_row cells region = Inr (Some ev)"
    if "6 \<le> length cells" "contains_weekday (cell_text (cells ! 0))"
  proof -
    from that(2) have "fst (extract_datetime (cells ! 0)) \<noteq> None"
      by (simp add: extract_datetime_None_iff)
    then obtain d t where "extract_datetime (cells ! 0) = (Some d, t)"
      by (cases "extract_datetime (cells ! 0)") auto
    then show ?thesis using that(1) by (simp add: parse_event_row_long)
  qed
  have "\<forall>e. parse_event_row cells region \<noteq> Inl e"
  proof (cases "length cells < 6")
    case True
    then show ?thesis using short by simp
  next
    case False
    then show ?thesis using nodate dated
      by (cases "contains_weekday (cell_text (cells ! 0))") auto
  qed
  with short nodate dated show ?thesis by blast
qed

theorem parse_event_row_gate_witness:
  "6 \<le> length sample_row \<and> contains_weekday (cell_text (sample_row ! 0))
   \<and> (\<exists>ev. parse_event_row sample_row sample_region = Inr (Some ev))
   \<and> 6 \<le> length sample_row_header \<and> \<not> contains_weekday (cell_text (sample_row_header ! 0))
   \<and> parse_event_row sample_row_header sample_region = Inr None
   \<and> length (take 5 sample_row) < 6
   \<and> parse_event_row (take 5 sample_row) sample_region = Inr None"
proof -
  have len: "6 \<le> length sample_row" "6 \<le> length sample_row_header" "length (take 5 sample_row) < 6"
    by (simp_all add: sample_row_def sample_row_header_def)
  have wd: "contains_weekday (cell_text (sample_row ! 0))"
    by code_simp
  have nwd: "\<not> contains_weekday (cell_text (sample_row_header ! 0))"
    by code_simp
  from parse_event_row_gate [of sample_row sample_region] len wd
  have "\<exists>ev. parse_event_row sample_row sample_region = Inr (Some ev)" by blast
  moreover from parse_event_row_gate [of sample_row_header sample_region] len nwd
  have "parse_event_row sample_row_header sample_region = Inr None" by blast
  moreover from parse_event_row_gate [of "take 5 sample_row" sample_region] len
  have "parse_event_row (take 5 sample_row) sample_region = Inr None" by blast
  ultimately show ?thesis using len wd nwd by blast
qed

section \<open>The title of an accepted row\<close>

lemma str_strip_Nil_iff: "str_strip s = [] \<longleftrightarrow> (\<forall>c\<in>set s. is_space c)"
proof -
  have "(\<forall>c\<in>set (dropWhile is_space s). is_space c) \<longleftrightarrow> dropWhile is_space s = []"
  proof
    assume a: "\<forall>c\<in>set (dropWhile is_space s). is_space c"
    show "dropWhile is_space s = []"
    proof (rule ccontr)
      assume ne: "dropWhile is_space s \<noteq> []"
      then have "\<not> is_space (hd (dropWhile is_space s))" by (rule hd_dropWhile)
      moreover have "hd (dropWhile is_space s) \<in> set (dropWhile is_space s)" using ne by simp
      ultimately show False using a by blast
    qed
  next
    assume "dropWhile is_space s = []"
    then show "\<forall>c\<in>set (dropWhile is_space s). is_space c" by (simp only: list.set ball_empty)
  qed
  then show ?thesis
    by (simp add: str_strip_def dropWhile_eq_Nil_conv)
qed

lemma parse_event_row_SomeD:
  assumes "parse_event_row cells region = Inr (Some ev)"
  shows "6 \<le> length cells"
    and "title ev = fst (projr (extract_title_and_url (cells ! 1)))"
    and "url ev = snd (projr (extract_title_and_url (cells ! 1)))"
    and "venue ev = projr (extract_venue (cells ! 1))"
    and "location ev = name region"
proof -
  show len: "6 \<le> length cells"
  proof (rule ccontr)
    assume "\<not> 6 \<le> length cells"
    then have "parse_event_row cells region = Inr None" by (simp add: parse_event_row_short)
    with assms show False by simp
  qed
  obtain dopt t where dt: "extract_datetime (cells ! 0) = (dopt, t)"
    by (cases "extract_datetime (cells ! 0)")
  with assms len obtain d where "dopt = Some d"
    by (cases dopt) (simp_all add: parse_event_row_long)
  with assms len dt show "title ev = fst (projr (extract_title_and_url (cells ! 1)))"
    and "url ev = snd (projr (extract_title_and_url (cells ! 1)))"
    and "venue ev = projr (extract_venue (cells ! 1))"
    and "location ev = name region"
    by (auto simp: parse_event_row_long)
qed

text \<open>
  C3 (title of an accepted row), as amended.  For every row the parser accepts: when the
  title cell has no hyperlink and its text has no \<open>@\<close>, the title is the literal \<open>Event\<close>
  and the URL is null; when it has no hyperlink and its text has an \<open>@\<close>, the title is the
  trimmed text before the first \<open>@\<close> and the URL is null; when it has a hyperlink, the
  title is the first hyperlink's visible text and the URL its resolved \<open>href\<close>.  The title
  is empty exactly when that hyperlink's visible text is empty or, without a hyperlink, only
  whitespace stands before the first \<open>@\<close>; in every other case it is non-empty.
\<close>

theorem parse_event_row_title:
  assumes "parse_event_row cells region = Inr (Some ev)"
  shows "(cell_links (cells ! 1) = [] \<and> CHR ''@'' \<notin> set (cell_text (cells ! 1)) \<longrightarrow>
            title ev = ''Event'' \<and> url ev = None)
    \<and> (cell_links (cells ! 1) = [] \<and> CHR ''@'' \<in> set (cell_text (cells ! 1)) \<longrightarrow>
            title ev = str_strip (takeWhile (\<lambda>c. c \<noteq> CHR ''@'') (cell_text (cells ! 1)))
            \<and> url ev = None)
    \<and> (\<forall>l ls. cell_links (cells ! 1) = l # ls \<longrightarrow>
            title ev = link_text l \<and> url ev = make_absolute_url (attributes_get_href l))
    \<and> (title ev = [] \<longleftrightarrow>
          (case cell_links (cells ! 1) of
             l # _ \<Rightarrow> link_text l = []
           | [] \<Rightarrow> CHR ''@'' \<in> set (cell_text (cells ! 1))
                   \<and> (\<forall>c\<in>set (takeWhile (\<lambda>c. c \<noteq> CHR ''@'') (cell_text (cells ! 1))).
                         is_space c)))"
  using parse_event_row_SomeD(2,3) [OF assms]
  by (auto simp: extract_title_and_url_eq str_strip_Nil_iff split: list.splits)

text \<open>
  The title is not always non-empty: a row whose title cell reads \<open>@ Club X\<close> and has no
  hyperlink is accepted with the empty title.
\<close>

theorem parse_event_row_title_counterexample:
  "parse_event_row sample_row_untitled sample_region =
     Inr (Some \<lparr> date = ''Sat: Nov 8 (9pm-2am)'', time = ''9pm-2am'', title = '''',
                  venue = ''Club X'', location = ''Seattle'', genres = [''techno''],
                  price = Some ''$10'', age_restriction = Some ''21+'', organizers = [''Crew''],
                  url = None, additional_links = [] \<rparr>)"
  by code_simp

theorem parse_event_row_title_witness:
  "parse_event_row sample_row_plain sample_region =
     Inr (Some \<lparr> date = ''Fri: Nov 7 (10pm)'', time = ''10pm'', title = ''Event'',
                  venue = ''TBA'', location = ''Seattle'', genres = [''dnb''],
                  price = Some ''free'', age_restriction = None, organizers = [],
                  url = None, additional_links = [] \<rparr>)
   \<and> cell_links (sample_row_plain ! 1) = []
   \<and> CHR ''@'' \<notin> set (cell_text (sample_row_plain ! 1))
   \<and> parse_event_row sample_row sample_region =
     Inr (Some \<lparr> date = ''Sat: Nov 8 (9pm-2am)'', time = ''9pm-2am'', title = ''Night Shift'',
                  venue = ''Club X'', location = ''Seattle'', genres = [''techno'', ''house''],
                  price = Some ''$10'', age_restriction = Some ''21+'',
                  organizers = [''Deep Crew''], url = None, additional_links = [] \<rparr>)
   \<and> cell_links (sample_row ! 1) = []
   \<and> CHR ''@'' \<in> set (cell_text (sample_row ! 1))
   \<and> str_strip (takeWhile (\<lambda>c. c \<noteq> CHR ''@'') (cell_text (sample_row ! 1))) = ''Night Shift''
   \<and> parse_event_row sample_row_linked sample_region =
     Inr (Some \<lparr> date = ''Sat: Nov 8 (9pm-2am)'', time = ''9pm-2am'', title = ''Night Shift'',
                  venue = ''Club X'', location = ''Seattle'', genres = [''techno''],
                  price = Some ''$10'', age_restriction = Some ''21+'', organizers = [''Crew''],
                  url = Some ''https://19hz.info/event/1'', additional_links = [] \<rparr>)
   \<and> cell_links (sample_row_linked ! 1) = [\<lparr> link_text = ''Night Shift'', href = Some ''/event/1'' \<rparr>]
   \<and> parse_event_row sample_row_nbsp sample_region =
     Inr (Some \<lparr> date = ''Sat: Nov 8 (9pm-2am)'', time = ''9pm-2am'', title = ''T'',
                  venue = ''Club X'', location = ''Seattle'', genres = [''techno''],
                  price = None, age_restriction = None, organizers = [''Crew''],
                  url = None, additional_links = [] \<rparr>)"
proof -
  have ev1: "parse_event_row sample_row_plain sample_region =
     Inr (Some \<lparr> date = ''Fri: Nov 7 (10pm)'', time = ''10pm'', title = ''Event'',
                  venue = ''TBA'', location = ''Seattle'', genres = [''dnb''],
                  price = Some ''free'', age_restriction = None, organizers = [],
                  url = None, additional_links = [] \<rparr>)"
    by code_simp
  have ev2: "parse_event_row sample_row sample_region =
     Inr (Some \<lparr> date = ''Sat: Nov 8 (9pm-2am)'', time = ''9pm-2am'', title = ''Night Shift'',
                  venue = ''Club X'', location = ''Seattle'', genres = [''techno'', ''house''],
                  price = Some ''$10'', age_restriction = Some ''21+'',
                  organizers = [''Deep Crew''], url = None, additional_links = [] \<rparr>)"
    by code_simp
  have ev3: "parse_event_row sample_row_linked sample_region =
     Inr (Some \<lparr> date = ''Sat: Nov 8 (9pm-2am)'', time = ''9pm-2am'', title = ''Night Shift'',
                  venue = ''Club X'', location = ''Seattle'', genres = [''techno''],
                  price = Some ''$10'', age_restriction = Some ''21+'', organizers = [''Crew''],
                  url = Some ''https://19hz.info/event/1'', additional_links = [] \<rparr>)"
    by code_simp
  have c1: "cell_links (sample_row_plain ! 1) = []"
      "CHR ''@'' \<notin> set (cell_text (sample_row_plain ! 1))"
    by (simp_all add: sample_row_plain_def text_cell_def)
  have c2: "cell_links (sample_row ! 1) = []" "CHR ''@'' \<in> set (cell_text (sample_row ! 1))"
    by (simp_all add: sample_row_def text_cell_def)
  have c3: "cell_links (sample_row_linked ! 1) = [\<lparr> link_text = ''Night Shift'', href = Some ''/event/1'' \<rparr>]"
    by (simp add: sample_row_linked_def)
  from parse_event_row_title [OF ev2] c2
  have "title \<lparr> date = ''Sat: Nov 8 (9pm-2am)'', time = ''9pm-2am'', title = ''Night Shift'',
                  venue = ''Club X'', location = ''Seattle'', genres = [''techno'', ''house''],
                  price = Some ''$10'', age_restriction = Some ''21+'',
                  organizers = [''Deep Crew''], url = None, additional_links = [] \<rparr>
        = str_strip (takeWhile (\<lambda>c. c \<noteq> CHR ''@'') (cell_text (sample_row ! 1)))"
    by blast
  then have s2: "str_strip (takeWhile (\<lambda>c. c \<noteq> CHR ''@'') (cell_text (sample_row ! 1))) = ''Night Shift''"
    by simp
  from parse_event_row_title [OF ev1] c1
  have "title \<lparr> date = ''Fri: Nov 7 (10pm)'', time = ''10pm'', title = ''Event'',
                  venue = ''TBA'', location = ''Seattle'', genres = [''dnb''],
                  price = Some ''free'', age_restriction = None, organizers = [],
                  url = None, additional_links = [] \<rparr> = ''Event''"
    by blast
  have ev4: "parse_event_row sample_row_nbsp sample_region =
     Inr (Some \<lparr> date = ''Sat: Nov 8 (9pm-2am)'', time = ''9pm-2am'', title = ''T'',
                  venue = ''Club X'', location = ''Seattle'', genres = [''techno''],
                  price = None, age_restriction = None, organizers = [''Crew''],
                  url = None, additional_links = [] \<rparr>)"
    by code_simp
  show ?thesis
    by (intro conjI) (rule ev1 ev2 ev3 ev4 c1 c2 c3 s2)+
qed

section \<open>The venue extractor\<close>

lemma str_strip_last: "str_strip s \<noteq> [] \<Longrightarrow> \<not> is_space (last (str_strip s))"
proof -
  assume ne: "str_strip s \<noteq> []"
  let ?d = "dropWhile is_space (rev (dropWhile is_space s))"
  from ne have "?d \<noteq> []" by (simp add: str_strip_def)
  then have "\<not> is_space (hd ?d)" by (rule hd_dropWhile)
  then show ?thesis by (simp add: str_strip_def last_rev)
qed

lemma str_strip_hd: "str_strip s \<noteq> [] \<Longrightarrow> \<not> is_space (hd (str_strip s))"
proof -
  assume ne: "str_strip s \<noteq> []"
  let ?u = "dropWhile is_space s"
  let ?d = "dropWhile is_space (rev ?u)"
  from ne have dne: "?d \<noteq> []" by (simp add: str_strip_def)
  have une: "?u \<noteq> []"
  proof
    assume "?u = []"
    then have "?d = []" by (simp only: rev.simps dropWhile.simps)
    with dne show False by contradiction
  qed
  have "rev ?u = takeWhile is_space (rev ?u) @ ?d" by simp
  then have "?u = rev ?d @ rev (takeWhile is_space (rev ?u))"
    by (metis rev_append rev_rev_ident)
  then have "hd ?u = hd (rev ?d)" using dne by (metis hd_append2 rev_is_Nil_conv)
  moreover have "\<not> is_space (hd ?u)" using une by (rule hd_dropWhile)
  ultimately show ?thesis by (simp add: str_strip_def)
qed

lemma str_strip_fixed:
  assumes "s = [] \<or> (\<not> is_space (hd s) \<and> \<not> is_space (last s))"
  shows "str_strip s = s"
proof (cases "s = []")
  case True
  then show ?thesis by (simp add: str_strip_def)
next
  case False
  with assms have h: "\<not> is_space (hd s)" and l: "\<not> is_space (last s)" by auto
  have "dropWhile is_space s = s" using h by (simp add: dropWhile_eq_self_iff)
  moreover have "dropWhile is_space (rev s) = rev s"
    using l False by (simp add: dropWhile_eq_self_iff hd_rev)
  ultimately show ?thesis by (simp add: str_strip_def)
qed

lemma str_strip_idem: "str_strip (str_strip s) = str_strip s"
  by (rule str_strip_fixed) (use str_strip_hd str_strip_last in blast)

lemma VENUE_LOCATION_PATTERN_Some:
  assumes "VENUE_LOCATION_PATTERN prev x = Some n"
  shows "\<exists>body. body \<noteq> [] \<and> CHR '')'' \<notin> set body \<and> n = length body + 2
           \<and> (x = ''('' @ body @ '')'' \<or> x = ''('' @ body @ [CHR '')'', CHR 0x0A])"
proof -
  from assms obtain rest where x: "x = CHR ''('' # rest"
    by (cases x) (auto simp: VENUE_LOCATION_PATTERN_def Let_def split: if_splits)
  let ?body = "takeWhile (\<lambda>c. c \<noteq> CHR '')'') rest"
  let ?after = "dropWhile (\<lambda>c. c \<noteq> CHR '')'') rest"
  from assms x have b: "?body \<noteq> []" and a: "?after = '')'' \<or> ?after = [CHR '')'', CHR 0x0A]"
    and n: "n = length ?body + 2"
    by (auto simp: VENUE_LOCATION_PATTERN_def Let_def split: if_splits)
  have "rest = ?body @ ?after" by simp
  moreover have "CHR '')'' \<notin> set ?body" by (auto dest: set_takeWhileD)
  ultimately show ?thesis using x b a n by (metis append_Cons append_Nil)
qed

lemma VENUE_LOCATION_PATTERN_match:
  assumes "body \<noteq> []" "CHR '')'' \<notin> set body"
  shows "VENUE_LOCATION_PATTERN prev (''('' @ body @ '')'') = Some (length body + 2)"
proof -
  have "takeWhile (\<lambda>c. c \<noteq> CHR '')'') (body @ '')'') = body"
    using assms(2) by (induction body) auto
  moreover have "dropWhile (\<lambda>c. c \<noteq> CHR '')'') (body @ '')'') = '')''"
    using assms(2) by (induction body) auto
  ultimately show ?thesis using assms(1)
    by (simp add: VENUE_LOCATION_PATTERN_def Let_def)
qed

lemma re_sub_empty_no_match:
  "(\<And>q b x. s = b @ x \<Longrightarrow> pat q x = None) \<Longrightarrow> re_sub_empty pat prev s = s"
proof (induction s arbitrary: prev)
  case Nil
  then show ?case by simp
next
  case (Cons c cs)
  have "pat prev (c # cs) = None" using Cons.prems [of "[]" "c # cs" prev] by simp
  moreover have "re_sub_empty pat (Some c) cs = cs"
  proof (rule Cons.IH)
    fix q b x assume "cs = b @ x"
    then show "pat q x = None" using Cons.prems [of "c # b" x q] by simp
  qed
  ultimately show ?case by simp
qed

lemma re_sub_empty_first_match:
  assumes "\<And>q b x. length b < length p \<Longrightarrow> p @ m = b @ x \<Longrightarrow> pat q x = None"
    and "\<And>q. pat q m = Some (length m)" and "m \<noteq> []"
  shows "re_sub_empty pat prev (p @ m) = p"
  using assms(1)
proof (induction p arbitrary: prev)
  case Nil
  obtain c cs where m: "m = c # cs" using assms(3) by (cases m) auto
  have "pat prev (c # cs) = Some (Suc (length cs))" using assms(2) [of prev] m by simp
  then show ?case using m by simp
next
  case (Cons c p)
  have "pat prev ((c # p) @ m) = None" using Cons.prems [of "[]" "(c # p) @ m" prev] by simp
  moreover have "re_sub_empty pat (Some c) (p @ m) = p"
  proof (rule Cons.IH)
    fix q b x assume "length b < length p" "p @ m = b @ x"
    then show "pat q x = None" using Cons.prems [of "c # b" x q] by simp
  qed
  ultimately show ?case by simp
qed

lemma venue_sub_strips:
  assumes "paren_suffix v p body"
    and "\<And>p' body'. paren_suffix v p' body' \<Longrightarrow> length p \<le> length p'"
  shows "re_sub_empty VENUE_LOCATION_PATTERN prev v = p"
proof -
  let ?m = "''('' @ body @ '')''"
  from assms(1) have v: "v = p @ ?m" and b: "body \<noteq> []" "CHR '')'' \<notin> set body"
    by (simp_all add: paren_suffix_def)
  have "re_sub_empty VENUE_LOCATION_PATTERN prev (p @ ?m) = p"
  proof (rule re_sub_empty_first_match)
    fix q b' x assume len: "length b' < length p" and eq: "p @ ?m = b' @ x"
    show "VENUE_LOCATION_PATTERN q x = None"
    proof (rule ccontr)
      assume "VENUE_LOCATION_PATTERN q x \<noteq> None"
      then obtain n where "VENUE_LOCATION_PATTERN q x = Some n" by auto
      from VENUE_LOCATION_PATTERN_Some [OF this] obtain body'
        where b': "body' \<noteq> []" "CHR '')'' \<notin> set body'"
          and x: "x = ''('' @ body' @ '')'' \<or> x = ''('' @ body' @ [CHR '')'', CHR 0x0A]"
        by blast
      from x show False
      proof
        assume "x = ''('' @ body' @ '')''"
        then have "paren_suffix v b' body'" using v eq b' by (simp add: paren_suffix_def)
        from assms(2) [OF this] len show False by simp
      next
        assume "x = ''('' @ body' @ [CHR '')'', CHR 0x0A]"
        then have l1: "last (b' @ x) = CHR 0x0A" by simp
        have l2: "last (p @ ?m) = CHR '')''" by simp
        from eq have "last (p @ ?m) = last (b' @ x)" by (rule arg_cong)
        with l1 l2 show False by simp
      qed
    qed
  next
    fix q show "VENUE_LOCATION_PATTERN q ?m = Some (length ?m)"
      using VENUE_LOCATION_PATTERN_match [OF b, of q] by simp
  qed simp
  then show ?thesis using v by simp
qed

lemma venue_sub_keeps:
  assumes "\<And>p body. \<not> paren_suffix v p body" and "v = [] \<or> last v \<noteq> CHR 0x0A"
  shows "re_sub_empty VENUE_LOCATION_PATTERN prev v = v"
proof (rule re_sub_empty_no_match)
  fix q b x assume eq: "v = b @ x"
  show "VENUE_LOCATION_PATTERN q x = None"
  proof (rule ccontr)
    assume "VENUE_LOCATION_PATTERN q x \<noteq> None"
    then obtain n where "VENUE_LOCATION_PATTERN q x = Some n" by auto
    from VENUE_LOCATION_PATTERN_Some [OF this] obtain body'
      where b': "body' \<noteq> []" "CHR '')'' \<notin> set body'"
        and x: "x = ''('' @ body' @ '')'' \<or> x = ''('' @ body' @ [CHR '')'', CHR 0x0A]"
      by blast
    from x show False
    proof
      assume "x = ''('' @ body' @ '')''"
      then have "paren_suffix v b body'" using eq b' by (simp add: paren_suffix_def)
      with assms(1) show False by blast
    next
      assume "x = ''('' @ body' @ [CHR '')'', CHR 0x0A]"
      then have "last v = CHR 0x0A" "v \<noteq> []" using eq by simp_all
      with assms(2) show False by blast
    qed
  qed
qed

lemma is_space_newline: "is_space (CHR 0x0A)"
  by code_simp

lemma trimmed_after_at_last: "trimmed_after_at text = [] \<or> last (trimmed_after_at text) \<noteq> CHR 0x0A"
  using str_strip_last [of "tl (dropWhile (\<lambda>c. c \<noteq> CHR ''@'') text)"] is_space_newline
  by (auto simp: trimmed_after_at_def)

lemma extract_venue_trimmed:
  "CHR ''@'' \<in> set (cell_text cell) \<Longrightarrow>
     extract_venue cell =
       Inr (str_strip (re_sub_empty VENUE_LOCATION_PATTERN None (trimmed_after_at (cell_text cell))))"
  by (simp add: extract_venue_eq trimmed_after_at_def)

lemma venue_club_x:
  "str_strip (re_sub_empty VENUE_LOCATION_PATTERN None (trimmed_after_at ''@ Club X (San Francisco)''))
     = ''Club X''"
  by code_simp

lemma trimmed_after_at_append:
  "CHR ''@'' \<notin> set t \<Longrightarrow> trimmed_after_at (t @ CHR ''@'' # rest) = str_strip rest"
proof -
  assume "CHR ''@'' \<notin> set t"
  then have "dropWhile (\<lambda>c. c \<noteq> CHR ''@'') (t @ CHR ''@'' # rest) = CHR ''@'' # rest"
    by (induction t) auto
  then show ?thesis by (simp add: trimmed_after_at_def)
qed

lemma paren_suffix_longest:
  assumes "paren_suffix v p body"
  shows "\<exists>p body. paren_suffix v p body
           \<and> (\<forall>p' body'. paren_suffix v p' body' \<longrightarrow> length p \<le> length p')"
proof -
  from assms have "case_prod (paren_suffix v) (p, body)" by simp
  from ex_has_least_nat [of "case_prod (paren_suffix v)" "(p, body)" "\<lambda>(p, body). length p", OF this]
  show ?thesis by auto
qed

text \<open>
  C8 (venue extraction).  If the cell text contains no \<open>@\<close>, the venue is \<open>TBA\<close>.  If it
  contains one, let \<open>v\<close> be the trimmed text after the first \<open>@\<close>: when \<open>v\<close> ends with a
  parenthesized suffix (an opening parenthesis, a non-empty body without closing
  parenthesis, the closing parenthesis that ends \<open>v\<close>), there is a longest such suffix and
  the venue is the trimmed text before it; when \<open>v\<close> ends with no such suffix, the venue is \<open>v\<close>.  The
  extractor never raises.  For a text whose first \<open>@\<close> is followed by
  \<open>Club X (San Francisco)\<close> the venue is \<open>Club X\<close>.
\<close>

theorem extract_venue_spec:
  "(CHR ''@'' \<notin> set (cell_text cell) \<longrightarrow> extract_venue cell = Inr ''TBA'')
   \<and> (CHR ''@'' \<in> set (cell_text cell) \<longrightarrow>
        (\<forall>p body. paren_suffix (trimmed_after_at (cell_text cell)) p body
             \<and> (\<forall>p' body'. paren_suffix (trimmed_after_at (cell_text cell)) p' body'
                    \<longrightarrow> length p \<le> length p')
           \<longrightarrow> extract_venue cell = Inr (str_strip p))
      \<and> ((\<forall>p body. \<not> paren_suffix (trimmed_after_at (cell_text cell)) p body)
           \<longrightarrow> extract_venue cell = Inr (trimmed_after_at (cell_text cell))))
   \<and> ((\<exists>p body. paren_suffix (trimmed_after_at (cell_text cell)) p body) \<longrightarrow>
        (\<exists>p body. paren_suffix (trimmed_after_at (cell_text cell)) p body
             \<and> (\<forall>p' body'. paren_suffix (trimmed_after_at (cell_text cell)) p' body'
                    \<longrightarrow> length p \<le> length p')))
   \<and> (\<exists>v. extract_venue cell = Inr v)
   \<and> (CHR ''@'' \<notin> set t \<and> cell_text cell = t @ ''@ Club X (San Francisco)''
        \<longrightarrow> extract_venue cell = Inr ''Club X'')"
proof -
  let ?v = "trimmed_after_at (cell_text cell)"
  have tba: "extract_venue cell = Inr ''TBA''" if "CHR ''@'' \<notin> set (cell_text cell)"
    using that by (simp add: extract_venue_eq)
  have strip: "extract_venue cell = Inr (str_strip p)"
    if "CHR ''@'' \<in> set (cell_text cell)" "paren_suffix ?v p body"
      "\<forall>p' body'. paren_suffix ?v p' body' \<longrightarrow> length p \<le> length p'" for p body
  proof -
    have "re_sub_empty VENUE_LOCATION_PATTERN None ?v = p"
      using that(2,3) by (intro venue_sub_strips [of ?v p body]) blast+
    then show ?thesis using that(1) by (simp add: extract_venue_trimmed)
  qed
  have keep: "extract_venue cell = Inr ?v"
    if "CHR ''@'' \<in> set (cell_text cell)" "\<forall>p body. \<not> paren_suffix ?v p body"
  proof -
    have "re_sub_empty VENUE_LOCATION_PATTERN None ?v = ?v"
      using that(2) trimmed_after_at_last [of "cell_text cell"] by (intro venue_sub_keeps) auto
    moreover have "str_strip ?v = ?v" by (simp add: trimmed_after_at_def str_strip_idem)
    ultimately show ?thesis using that(1) by (simp add: extract_venue_trimmed)
  qed
  have club: "extract_venue cell = Inr ''Club X''"
    if "CHR ''@'' \<notin> set t" "cell_text cell = t @ ''@ Club X (San Francisco)''"
  proof -
    have "?v = trimmed_after_at ''@ Club X (San Francisco)''"
      using that trimmed_after_at_append [of t "'' Club X (San Francisco)''"]
        trimmed_after_at_append [of "[]" "'' Club X (San Francisco)''"] by simp
    moreover have "CHR ''@'' \<in> set (cell_text cell)" using that(2) by simp
    ultimately show ?thesis by (simp add: extract_venue_trimmed venue_club_x)
  qed
  have "\<exists>v. extract_venue cell = Inr v" by (simp add: extract_venue_eq)
  moreover have "(\<exists>p body. paren_suffix ?v p body) \<longrightarrow>
        (\<exists>p body. paren_suffix ?v p body
             \<and> (\<forall>p' body'. paren_suffix ?v p' body' \<longrightarrow> length p \<le> length p'))"
    using paren_suffix_longest [of ?v] by blast
  ultimately show ?thesis using tba strip keep club by blast
qed

lemma paren_suffix_last: "paren_suffix v p body \<Longrightarrow> last v = CHR '')''"
  by (simp add: paren_suffix_def)

lemma paren_suffix_first_open:
  assumes "paren_suffix v p body" "CHR ''('' \<notin> set p" "paren_suffix v p' body'"
  shows "length p \<le> length p'"
proof (rule ccontr)
  assume "\<not> length p \<le> length p'"
  then have lt: "length p' < length p" by simp
  from assms(1) have "v ! length p' = p ! length p'"
    using lt by (simp add: paren_suffix_def nth_append)
  moreover from assms(3) have "v ! length p' = CHR ''(''"
    by (simp add: paren_suffix_def)
  moreover have "p ! length p' \<in> set p" using lt by simp
  ultimately show False using assms(2) by simp
qed

theorem extract_venue_spec_witness:
  "CHR ''@'' \<notin> set ''Night Shift ''
   \<and> cell_text (sample_row ! 1) = ''Night Shift '' @ ''@ Club X (San Francisco)''
   \<and> extract_venue (sample_row ! 1) = Inr ''Club X''
   \<and> CHR ''@'' \<notin> set (cell_text (sample_row_plain ! 1))
   \<and> extract_venue (sample_row_plain ! 1) = Inr ''TBA''
   \<and> CHR ''@'' \<in> set (cell_text (sample_row ! 1))
   \<and> paren_suffix (trimmed_after_at (cell_text (sample_row ! 1))) ''Club X '' ''San Francisco''
   \<and> extract_venue (sample_row ! 1) = Inr (str_strip ''Club X '')
   \<and> CHR ''@'' \<in> set (cell_text (sample_row_untitled ! 1))
   \<and> extract_venue (sample_row_untitled ! 1) = Inr ''Club X''
   \<and> extract_venue (sample_row_nbsp ! 1) = Inr ''Club X''"
proof -
  have a: "CHR ''@'' \<notin> set ''Night Shift ''"
    "cell_text (sample_row ! 1) = ''Night Shift '' @ ''@ Club X (San Francisco)''"
    "CHR ''@'' \<notin> set (cell_text (sample_row_plain ! 1))"
    "CHR ''@'' \<in> set (cell_text (sample_row ! 1))"
    "CHR ''@'' \<in> set (cell_text (sample_row_untitled ! 1))"
    by (simp_all add: sample_row_def sample_row_plain_def sample_row_untitled_def text_cell_def)
  have v1: "trimmed_after_at (cell_text (sample_row ! 1)) = ''Club X (San Francisco)''"
    by code_simp
  have v2: "trimmed_after_at (cell_text (sample_row_untitled ! 1)) = ''Club X''"
    by code_simp
  have ps: "paren_suffix (trimmed_after_at (cell_text (sample_row ! 1))) ''Club X '' ''San Francisco''"
    unfolding v1 by (simp add: paren_suffix_def)
  have first: "\<forall>p' body'. paren_suffix (trimmed_after_at (cell_text (sample_row ! 1))) p' body'
      \<longrightarrow> length ''Club X '' \<le> length p'"
    using paren_suffix_first_open [OF ps] by simp
  have none: "\<forall>p body. \<not> paren_suffix (trimmed_after_at (cell_text (sample_row_untitled ! 1))) p body"
    unfolding v2 using paren_suffix_last [of "''Club X''"] by auto
  note s1 = extract_venue_spec [of "sample_row ! 1" "''Night Shift ''"]
  from s1 a have "extract_venue (sample_row ! 1) = Inr ''Club X''" by blast
  moreover from s1 a(4) ps first have "extract_venue (sample_row ! 1) = Inr (str_strip ''Club X '')"
    by blast
  moreover from extract_venue_spec [of "sample_row_plain ! 1" "[]"] a
  have "extract_venue (sample_row_plain ! 1) = Inr ''TBA''" by blast
  moreover from extract_venue_spec [of "sample_row_untitled ! 1" "[]"] a(5) none
  have "extract_venue (sample_row_untitled ! 1)
      = Inr (trimmed_after_at (cell_text (sample_row_untitled ! 1)))" by blast
  then have "extract_venue (sample_row_untitled ! 1) = Inr ''Club X''" unfolding v2 .
  moreover have "extract_venue (sample_row_nbsp ! 1) = Inr ''Club X''"
    by code_simp
  ultimately show ?thesis using a ps by blast
qed

section \<open>Price and age\<close>

lemma re_search_first_match:
  assumes sound: "\<And>b x n. pat (prev_at None b) x = Some n \<Longrightarrow>
            n \<le> length x \<and> occurs b (take n x) (drop n x)
            \<and> (\<forall>m a. x = m @ a \<and> occurs b m a \<longrightarrow> length m \<le> n)"
    and complete: "\<And>b x m a. pat (prev_at None b) x = None \<Longrightarrow> x = m @ a \<Longrightarrow> \<not> occurs b m a"
  shows "case re_search pat None text of
           None \<Rightarrow> \<not> (\<exists>b m a. text = b @ m @ a \<and> occurs b m a)
         | Some (b, g, a) \<Rightarrow> first_match occurs text g"
proof (cases "re_search pat None text")
  case None
  then have "\<And>b x. text = b @ x \<Longrightarrow> pat (prev_at None b) x = None"
    by (simp add: re_search_None_iff)
  then have "\<not> (\<exists>b m a. text = b @ m @ a \<and> occurs b m a)"
    using complete by blast
  with None show ?thesis by simp
next
  case (Some r)
  obtain b g a where r: "r = (b, g, a)" by (cases r)
  note s = Some [unfolded r]
  have decomp: "text = b @ g @ a" using s by (rule re_search_Some_append)
  from re_search_Some_match [OF s] obtain n
    where n: "pat (prev_at None b) (g @ a) = Some n" and g: "g = take n (g @ a)" by blast
  from sound [OF n] have le: "n \<le> length (g @ a)"
    and occ: "occurs b (take n (g @ a)) (drop n (g @ a))"
    and longest: "\<And>m a'. g @ a = m @ a' \<Longrightarrow> occurs b m a' \<Longrightarrow> length m \<le> n" by blast+
  have "length (take n (g @ a)) = n" using le by simp
  then have lg: "length g = n" by (simp only: g [symmetric])
  then have td: "take n (g @ a) = g" "drop n (g @ a) = a" by simp_all
  have first: "length b < length b' \<or> (length b = length b' \<and> length m' \<le> length g)"
    if t': "text = b' @ m' @ a'" and o': "occurs b' m' a'" for b' m' a'
  proof (cases "length b' < length b")
    case True
    from re_search_Some_first [OF s t' True] have "pat (prev_at None b') (m' @ a') = None" .
    from complete [OF this refl] o' show ?thesis by blast
  next
    case False
    show ?thesis
    proof (cases "length b = length b'")
      case True
      with decomp t' have "b = b'" "g @ a = m' @ a'" by auto
      with longest [of m' a'] o' lg True show ?thesis by simp
    next
      case False
      with \<open>\<not> length b' < length b\<close> show ?thesis by simp
    qed
  qed
  have "first_match occurs text g"
    unfolding first_match_def
  proof (rule exI [of _ b], rule exI [of _ a], intro conjI allI impI)
    show "text = b @ g @ a" by (rule decomp)
    show "occurs b g a" using occ by (simp only: td)
    fix b' m' a' assume "text = b' @ m' @ a' \<and> occurs b' m' a'"
    then show "length b < length b' \<or> (length b = length b' \<and> length m' \<le> length g)"
      using first [of b' m' a'] by simp
  qed
  with Some r show ?thesis by simp
qed

lemma str_lower_length: "length (str_lower s) = length s"
  by (simp add: str_lower_def)

lemma str_lower_take: "str_lower (take n s) = take n (str_lower s)"
  by (simp add: str_lower_def take_map)

lemma str_lower_Cons: "str_lower (c # cs) = char_lower c # str_lower cs"
  by (simp add: str_lower_def)

lemma str_lower_Nil: "str_lower [] = []"
  by (simp add: str_lower_def)

lemma char_lower_dollar: "char_lower (CHR ''$'') = CHR ''$''"
  by code_simp

lemma digits_lower_fixed: "list_all (\<lambda>c. char_lower c = c) ''0123456789''"
  by code_simp

lemma char_lower_digit: "is_digit c \<Longrightarrow> char_lower c = c"
  using digits_lower_fixed by (auto simp: is_digit_def list_all_iff)

lemma digits_not_lower_a: "list_all (\<lambda>c. c \<noteq> CHR ''a'') ''0123456789''"
  by code_simp

lemma is_digit_not_a: "is_digit c \<Longrightarrow> char_lower c \<noteq> CHR ''a''"
  using digits_not_lower_a by (auto simp: char_lower_digit is_digit_def list_all_iff)

lemma is_digit_plus: "\<not> is_digit (CHR ''+'')"
  by (simp add: is_digit_def)

lemma lower_word_at:
  assumes "str_lower m = w" "x = m @ a" "length w = k"
  shows "str_lower (take k x) = w" and "length m = k"
proof -
  show l: "length m = k" using assms(1,3) str_lower_length [of m] by simp
  then show "str_lower (take k x) = w" using assms by simp
qed

lemma price_token_cases:
  assumes "price_token m" "x = m @ a"
  shows "(prefix ''$'' x \<and> takeWhile (\<lambda>c. is_digit c \<or> c = CHR ''.'') (drop 1 x) \<noteq> []
            \<and> length m \<le> 1 + length (takeWhile (\<lambda>c. is_digit c \<or> c = CHR ''.'') (drop 1 x)))
       \<or> (str_lower (take 4 x) = ''free'' \<and> length m = 4)
       \<or> (str_lower (take 8 x) = ''donation'' \<and> length m = 8)"
proof -
  let ?dd = "\<lambda>c. is_digit c \<or> c = CHR ''.''"
  from assms(1) consider
    (dollar) amount where "m = ''$'' @ amount" "amount \<noteq> []" "\<forall>c\<in>set amount. ?dd c"
    | (free) "str_lower m = ''free''" | (donation) "str_lower m = ''donation''"
    unfolding price_token_def by blast
  then show ?thesis
  proof cases
    case dollar
    have "takeWhile ?dd (amount @ a) = amount @ takeWhile ?dd a"
      using dollar(3) by (intro takeWhile_append2) blast
    then show ?thesis using dollar assms(2) by simp
  next
    case free
    have "str_lower (take 4 x) = ''free''" "length m = 4"
      using lower_word_at [OF free assms(2), of 4] by simp_all
    then show ?thesis by blast
  next
    case donation
    have "str_lower (take 8 x) = ''donation''" "length m = 8"
      using lower_word_at [OF donation assms(2), of 8] by simp_all
    then show ?thesis by blast
  qed
qed

lemma dollar_not_word:
  assumes "prefix ''$'' x"
  shows "str_lower (take 4 x) \<noteq> ''free''" and "str_lower (take 8 x) \<noteq> ''donation''"
proof -
  from assms obtain r where "x = CHR ''$'' # r" by (auto simp: prefix_def)
  then show "str_lower (take 4 x) \<noteq> ''free''" and "str_lower (take 8 x) \<noteq> ''donation''"
    by (simp_all add: str_lower_Cons char_lower_dollar take_Cons')
qed

lemma free_not_donation:
  assumes "str_lower (take 4 x) = ''free''"
  shows "str_lower (take 8 x) \<noteq> ''donation''"
proof
  assume d: "str_lower (take 8 x) = ''donation''"
  have "take 4 x = take 4 (take 8 x)" by simp
  then have "str_lower (take 4 x) = take 4 (str_lower (take 8 x))"
    by (simp only: str_lower_take)
  with d assms show False by simp
qed

lemma PRICE_PATTERN_cases:
  assumes "PRICE_PATTERN q x = Some n"
  obtains (dollar) "prefix ''$'' x" "takeWhile (\<lambda>c. is_digit c \<or> c = CHR ''.'') (drop 1 x) \<noteq> []" 
       "n = 1 + length (takeWhile (\<lambda>c. is_digit c \<or> c = CHR ''.'') (drop 1 x))"
    | (free) "\<not> (prefix ''$'' x \<and> takeWhile (\<lambda>c. is_digit c \<or> c = CHR ''.'') (drop 1 x) \<noteq> [])" "str_lower (take 4 x) = ''free''" "n = 4"
    | (donation) "\<not> (prefix ''$'' x \<and> takeWhile (\<lambda>c. is_digit c \<or> c = CHR ''.'') (drop 1 x) \<noteq> [])" "str_lower (take 4 x) \<noteq> ''free''"
        "str_lower (take 8 x) = ''donation''" "n = 8"
proof -
  define A where "A \<longleftrightarrow> prefix ''$'' x \<and> takeWhile (\<lambda>c. is_digit c \<or> c = CHR ''.'') (drop 1 x) \<noteq> []"
  define B where "B \<longleftrightarrow> str_lower (take 4 x) = ''free''"
  define C where "C \<longleftrightarrow> str_lower (take 8 x) = ''donation''"
  define k where "k = 1 + length (takeWhile (\<lambda>c. is_digit c \<or> c = CHR ''.'') (drop 1 x))"
  have "PRICE_PATTERN q x = (if A then Some k else if B then Some 4 else if C then Some 8 else None)"
    unfolding PRICE_PATTERN_def Let_def A_def B_def C_def k_def by (rule refl)
  with assms have "(A \<and> n = k) \<or> (\<not> A \<and> B \<and> n = 4) \<or> (\<not> A \<and> \<not> B \<and> C \<and> n = 8)"
    by (auto split: if_splits)
  then show ?thesis
    using dollar free donation unfolding A_def B_def C_def k_def by blast
qed

lemma PRICE_PATTERN_None:
  assumes "PRICE_PATTERN q x = None"
  shows "\<not> (prefix ''$'' x \<and> takeWhile (\<lambda>c. is_digit c \<or> c = CHR ''.'') (drop 1 x) \<noteq> [])"
    and "str_lower (take 4 x) \<noteq> ''free''" and "str_lower (take 8 x) \<noteq> ''donation''"
proof -
  define A where "A \<longleftrightarrow> prefix ''$'' x \<and> takeWhile (\<lambda>c. is_digit c \<or> c = CHR ''.'') (drop 1 x) \<noteq> []"
  define B where "B \<longleftrightarrow> str_lower (take 4 x) = ''free''"
  define C where "C \<longleftrightarrow> str_lower (take 8 x) = ''donation''"
  define k where "k = 1 + length (takeWhile (\<lambda>c. is_digit c \<or> c = CHR ''.'') (drop 1 x))"
  have "PRICE_PATTERN q x = (if A then Some k else if B then Some 4 else if C then Some 8 else None)"
    unfolding PRICE_PATTERN_def Let_def A_def B_def C_def k_def by (rule refl)
  with assms have "\<not> A \<and> \<not> B \<and> \<not> C"
    by (auto split: if_splits)
  then show "\<not> (prefix ''$'' x \<and> takeWhile (\<lambda>c. is_digit c \<or> c = CHR ''.'') (drop 1 x) \<noteq> [])"
    and "str_lower (take 4 x) \<noteq> ''free''" and "str_lower (take 8 x) \<noteq> ''donation''"
    unfolding A_def B_def C_def by blast+
qed

lemma PRICE_PATTERN_sound:
  assumes "PRICE_PATTERN q x = Some n"
  shows "n \<le> length x \<and> price_token (take n x)
     \<and> (\<forall>m a. x = m @ a \<and> price_token m \<longrightarrow> length m \<le> n)"
proof -
  let ?dd = "\<lambda>c. is_digit c \<or> c = CHR ''.''"
  let ?amt = "takeWhile ?dd (drop 1 x)"
  from assms show ?thesis
  proof (cases rule: PRICE_PATTERN_cases)
    case dollar
    from dollar(1) obtain r where x: "x = CHR ''$'' # r" by (auto simp: prefix_def)
    have amt: "?amt = takeWhile ?dd r" using x by simp
    have "take (length (takeWhile ?dd r)) r = takeWhile ?dd r"
      by (rule takeWhile_eq_take [symmetric])
    then have tk: "take n x = ''$'' @ ?amt" using x dollar(3) amt by simp
    have "\<forall>c\<in>set ?amt. ?dd c" by (auto dest: set_takeWhileD)
    then have tok: "price_token (take n x)"
      unfolding price_token_def using tk dollar(2) by blast
    have le: "n \<le> length x" using x dollar(3) amt length_takeWhile_le [of ?dd r] by simp
    have "length m \<le> n" if "x = m @ a" "price_token m" for m a
      using price_token_cases [OF that(2,1)] dollar_not_word [OF dollar(1)]
      unfolding dollar(3) by blast
    with tok le show ?thesis by blast
  next
    case free
    have "length (take 4 x) = length ''free''"
      using str_lower_length [of "take 4 x"] by (simp only: free(2))
    then have le: "n \<le> length x" unfolding free(3) by simp
    have tok: "price_token (take n x)" unfolding free(3) price_token_def using free(2) by blast
    have "length m \<le> n" if "x = m @ a" "price_token m" for m a
    proof -
      from price_token_cases [OF that(2,1)] free(1) free_not_donation [OF free(2)]
      have "length m = 4" by blast
      then show ?thesis unfolding free(3) by simp
    qed
    with tok le show ?thesis by blast
  next
    case donation
    have "length (take 8 x) = length ''donation''"
      using str_lower_length [of "take 8 x"] by (simp only: donation(3))
    then have le: "n \<le> length x" unfolding donation(4) by simp
    have tok: "price_token (take n x)"
      unfolding donation(4) price_token_def using donation(3) by blast
    have "length m \<le> n" if "x = m @ a" "price_token m" for m a
    proof -
      from price_token_cases [OF that(2,1)] donation(1,2)
      have "length m = 8" by blast
      then show ?thesis unfolding donation(4) by simp
    qed
    with tok le show ?thesis by blast
  qed
qed

lemma PRICE_PATTERN_complete:
  assumes "PRICE_PATTERN q x = None" "x = m @ a"
  shows "\<not> price_token m"
proof
  assume "price_token m"
  from price_token_cases [OF this assms(2)] PRICE_PATTERN_None [OF assms(1)]
  show False by blast
qed

lemma word_boundary_prev_at: "word_boundary (prev_at None b) x \<longleftrightarrow> at_word_boundary b x"
  by (cases b rule: rev_cases; cases x)
     (simp_all add: word_boundary_def prev_at_def at_word_boundary_def)

lemma is_digit_21: "is_digit (CHR ''2'')" "is_digit (CHR ''1'')" "is_digit (CHR ''8'')"
  by (simp_all add: is_digit_def)

lemma age_token_cases:
  assumes "age_token m" "x = m @ a"
  shows "(prefix ''21+'' x \<and> m = ''21+'') \<or> (prefix ''18+'' x \<and> m = ''18+'')
       \<or> (str_lower (take 8 x) = ''all ages'' \<and> length m = 8)
       \<or> (takeWhile is_digit x \<noteq> [] \<and> prefix ''+'' (drop (length (takeWhile is_digit x)) x)
            \<and> length m = length (takeWhile is_digit x) + 1)"
proof -
  from assms(1) consider (a21) "m = ''21+''" | (a18) "m = ''18+''"
    | (all) "str_lower m = ''all ages''"
    | (digits) ds where "m = ds @ ''+''" "ds \<noteq> []" "\<forall>c\<in>set ds. is_digit c"
    unfolding age_token_def by blast
  then show ?thesis
  proof cases
    case a21
    then have "prefix ''21+'' x" using assms(2) by (simp add: prefix_def)
    with a21 show ?thesis by blast
  next
    case a18
    then have "prefix ''18+'' x" using assms(2) by (simp add: prefix_def)
    with a18 show ?thesis by blast
  next
    case all
    have "str_lower (take 8 x) = ''all ages''" "length m = 8"
      using lower_word_at [OF all assms(2), of 8] by simp_all
    then show ?thesis by blast
  next
    case digits
    have x: "x = ds @ CHR ''+'' # a" using digits(1) assms(2) by simp
    have "takeWhile is_digit (ds @ CHR ''+'' # a) = takeWhile is_digit ds"
      using is_digit_plus by (rule takeWhile_tail)
    also have "\<dots> = ds" using digits(3) by simp
    finally have tw: "takeWhile is_digit x = ds" using x by simp
    have "drop (length ds) x = CHR ''+'' # a" using x by simp
    then have "prefix ''+'' (drop (length (takeWhile is_digit x)) x)"
      unfolding tw by (simp add: prefix_def)
    moreover have "length m = length (takeWhile is_digit x) + 1"
      unfolding tw using digits(1) by simp
    ultimately show ?thesis using digits(2) tw by simp
  qed
qed

lemma AGE_PATTERN_unfold:
  "AGE_PATTERN q x =
     (if \<not> word_boundary q x then None
      else if prefix ''21+'' x then Some 3
      else if prefix ''18+'' x then Some 3
      else if str_lower (take 8 x) = ''all ages'' then Some 8
      else if takeWhile is_digit x \<noteq> [] \<and> prefix ''+'' (drop (length (takeWhile is_digit x)) x)
           then Some (length (takeWhile is_digit x) + 1)
      else None)"
  unfolding AGE_PATTERN_def Let_def by (rule refl)

lemma all_ages_not_digit:
  assumes "str_lower (take 8 x) = ''all ages''"
  shows "takeWhile is_digit x = []" and "\<not> prefix ''21+'' x" and "\<not> prefix ''18+'' x"
proof -
  from assms obtain c r where x: "x = c # r" by (cases x) (simp_all add: str_lower_Nil)
  with assms have a: "char_lower c = CHR ''a''" by (simp add: str_lower_Cons)
  then have nd: "\<not> is_digit c" using is_digit_not_a by blast
  then show "takeWhile is_digit x = []" using x by simp
  show "\<not> prefix ''21+'' x" using x nd is_digit_21 by auto
  show "\<not> prefix ''18+'' x" using x nd is_digit_21 by auto
qed

lemma digits_of_21_18:
  "prefix ''21+'' x \<Longrightarrow> length (takeWhile is_digit x) = 2"
  "prefix ''18+'' x \<Longrightarrow> length (takeWhile is_digit x) = 2"
  using is_digit_21 is_digit_plus by (auto simp: prefix_def)

lemma AGE_PATTERN_sound:
  assumes "AGE_PATTERN (prev_at None b) x = Some n"
  shows "n \<le> length x \<and> age_occurs b (take n x) (drop n x)
     \<and> (\<forall>m a. x = m @ a \<and> age_occurs b m a \<longrightarrow> length m \<le> n)"
proof -
  define W where "W \<longleftrightarrow> word_boundary (prev_at None b) x"
  define A1 where "A1 \<longleftrightarrow> prefix ''21+'' x"
  define A2 where "A2 \<longleftrightarrow> prefix ''18+'' x"
  define A3 where "A3 \<longleftrightarrow> str_lower (take 8 x) = ''all ages''"
  define A4 where "A4 \<longleftrightarrow> takeWhile is_digit x \<noteq> []
      \<and> prefix ''+'' (drop (length (takeWhile is_digit x)) x)"
  define k where "k = length (takeWhile is_digit x) + 1"
  have "AGE_PATTERN (prev_at None b) x =
      (if \<not> W then None else if A1 then Some 3 else if A2 then Some 3
       else if A3 then Some 8 else if A4 then Some k else None)"
    unfolding W_def A1_def A2_def A3_def A4_def k_def by (rule AGE_PATTERN_unfold)
  with assms have c: "W \<and> ((A1 \<and> n = 3) \<or> (\<not> A1 \<and> A2 \<and> n = 3) \<or> (\<not> A1 \<and> \<not> A2 \<and> A3 \<and> n = 8)
      \<or> (\<not> A1 \<and> \<not> A2 \<and> \<not> A3 \<and> A4 \<and> n = k))"
    by (auto split: if_splits)
  then have bd: "at_word_boundary b x" by (simp add: W_def word_boundary_prev_at)
  have tokens: "length m = 3 \<or> (A3 \<and> length m = 8) \<or> (A4 \<and> length m = k)"
    if "x = m @ a" "age_token m" for m a
    using age_token_cases [OF that(2,1)] unfolding A3_def A4_def k_def by auto
  have goal: "n \<le> length x \<and> age_token (take n x) \<and> (\<forall>m a. x = m @ a \<and> age_token m \<longrightarrow> length m \<le> n)"
  proof -
    from c consider (a21) A1 "n = 3" | (a18) A2 "n = 3" | (all) "\<not> A1" "\<not> A2" A3 "n = 8"
      | (digits) "\<not> A1" "\<not> A2" "\<not> A3" A4 "n = k" by blast
    then show ?thesis
    proof cases
      case a21
      then obtain r where x: "x = ''21+'' @ r" by (auto simp: A1_def prefix_def)
      have "\<not> A3" using all_ages_not_digit(2) a21(1) unfolding A3_def A1_def by blast
      moreover have "k = 3" using digits_of_21_18(1) a21(1) unfolding A1_def k_def by simp
      ultimately have "length m \<le> 3" if "x = m @ a" "age_token m" for m a
        using tokens [OF that] by auto
      moreover have "age_token (take 3 x)" using x by (simp add: age_token_def)
      moreover have "3 \<le> length x" using x by simp
      ultimately show ?thesis unfolding a21(2) by blast
    next
      case a18
      then obtain r where x: "x = ''18+'' @ r" by (auto simp: A2_def prefix_def)
      have "\<not> A3" using all_ages_not_digit(3) a18(1) unfolding A3_def A2_def by blast
      moreover have "k = 3" using digits_of_21_18(2) a18(1) unfolding A2_def k_def by simp
      ultimately have "length m \<le> 3" if "x = m @ a" "age_token m" for m a
        using tokens [OF that] by auto
      moreover have "age_token (take 3 x)" using x by (simp add: age_token_def)
      moreover have "3 \<le> length x" using x by simp
      ultimately show ?thesis unfolding a18(2) by blast
    next
      case all
      have "\<not> A4" using all_ages_not_digit(1) all(3) unfolding A3_def A4_def by blast
      moreover have "length m \<noteq> 3" if "x = m @ a" "age_token m" for m a
      proof
        assume l: "length m = 3"
        from age_token_cases [OF that(2,1)] all(1,2) \<open>\<not> A4\<close> have "length m = 8"
          unfolding A1_def A2_def A4_def by blast
        with l show False by simp
      qed
      ultimately have "length m \<le> 8" if "x = m @ a" "age_token m" for m a
        using tokens [OF that] that by auto
      moreover have "age_token (take 8 x)" using all(3) by (simp add: age_token_def A3_def)
      moreover have "length (take 8 x) = length ''all ages''"
        using str_lower_length [of "take 8 x"] all(3) unfolding A3_def by simp
      then have "8 \<le> length x" by simp
      ultimately show ?thesis unfolding all(4) by blast
    next
      case digits
      let ?ds = "takeWhile is_digit x"
      from digits(4) have ne: "?ds \<noteq> []" and pl: "prefix ''+'' (drop (length ?ds) x)"
        unfolding A4_def by blast+
      from pl obtain r where dr: "drop (length ?ds) x = CHR ''+'' # r" by (auto simp: prefix_def)
      have "x = take (length ?ds) x @ drop (length ?ds) x" by simp
      also have "take (length ?ds) x = ?ds" by (rule takeWhile_eq_take [symmetric])
      finally have x: "x = ?ds @ CHR ''+'' # r" using dr by simp
      have "take k (?ds @ CHR ''+'' # r) = ?ds @ ''+''" unfolding k_def by simp
      then have tk: "take k x = ?ds @ ''+''" using x by simp
      have "\<forall>c\<in>set ?ds. is_digit c" by (auto dest: set_takeWhileD)
      then have "age_token (take k x)" unfolding tk age_token_def using ne by blast
      moreover have "k \<le> length x"
      proof -
        have "length x = length ?ds + length (CHR ''+'' # r)" by (subst x) simp
        then show ?thesis unfolding k_def by simp
      qed
      moreover have "length m \<le> k" if "x = m @ a" "age_token m" for m a
      proof -
        from age_token_cases [OF that(2,1)] digits(1,2,3)
        have "length m = k" unfolding A1_def A2_def A3_def k_def by blast
        then show ?thesis by simp
      qed
      ultimately show ?thesis unfolding digits(5) by blast
    qed
  qed
  then show ?thesis using bd by (simp add: age_occurs_def)
qed

lemma AGE_PATTERN_complete:
  assumes "AGE_PATTERN (prev_at None b) x = None" "x = m @ a"
  shows "\<not> age_occurs b m a"
proof
  assume occ: "age_occurs b m a"
  then have tok: "age_token m" and bd: "at_word_boundary b x"
    using assms(2) by (simp_all add: age_occurs_def)
  define A1 where "A1 \<longleftrightarrow> prefix ''21+'' x"
  define A2 where "A2 \<longleftrightarrow> prefix ''18+'' x"
  define A3 where "A3 \<longleftrightarrow> str_lower (take 8 x) = ''all ages''"
  define A4 where "A4 \<longleftrightarrow> takeWhile is_digit x \<noteq> []
      \<and> prefix ''+'' (drop (length (takeWhile is_digit x)) x)"
  define k where "k = length (takeWhile is_digit x) + 1"
  have W: "word_boundary (prev_at None b) x" using bd by (simp add: word_boundary_prev_at)
  have "AGE_PATTERN (prev_at None b) x =
      (if \<not> word_boundary (prev_at None b) x then None else if A1 then Some 3 else if A2 then Some 3
       else if A3 then Some 8 else if A4 then Some k else None)"
    unfolding A1_def A2_def A3_def A4_def k_def by (rule AGE_PATTERN_unfold)
  with assms(1) W have "\<not> A1 \<and> \<not> A2 \<and> \<not> A3 \<and> \<not> A4"
    by (auto split: if_splits)
  with age_token_cases [OF tok assms(2)] show False
    unfolding A1_def A2_def A3_def A4_def by blast
qed

lemma price_token_nonempty: "price_token m \<Longrightarrow> m \<noteq> []"
  by (auto simp: price_token_def str_lower_Nil)

lemma age_token_nonempty: "age_token m \<Longrightarrow> m \<noteq> []"
  by (auto simp: age_token_def str_lower_Nil)

lemma first_match_occurs:
  "first_match occurs text m \<Longrightarrow> \<exists>b a. text = b @ m @ a \<and> occurs b m a"
  unfolding first_match_def by blast

lemma price_search:
  "case re_search PRICE_PATTERN None text of
     None \<Rightarrow> \<not> (\<exists>b m a. text = b @ m @ a \<and> price_occurs b m a)
   | Some (b, g, a) \<Rightarrow> first_match price_occurs text g"
proof (rule re_search_first_match)
  fix b x n assume "PRICE_PATTERN (prev_at None b) x = Some n"
  from PRICE_PATTERN_sound [OF this]
  show "n \<le> length x \<and> price_occurs b (take n x) (drop n x)
      \<and> (\<forall>m a. x = m @ a \<and> price_occurs b m a \<longrightarrow> length m \<le> n)"
    by (simp add: price_occurs_def)
next
  fix b x m a assume "PRICE_PATTERN (prev_at None b) x = None" "x = m @ a"
  from PRICE_PATTERN_complete [OF this] show "\<not> price_occurs b m a"
    by (simp add: price_occurs_def)
qed

lemma age_search:
  "case re_search AGE_PATTERN None text of
     None \<Rightarrow> \<not> (\<exists>b m a. text = b @ m @ a \<and> age_occurs b m a)
   | Some (b, g, a) \<Rightarrow> first_match age_occurs text g"
proof (rule re_search_first_match)
  fix b x n assume "AGE_PATTERN (prev_at None b) x = Some n"
  from AGE_PATTERN_sound [OF this]
  show "n \<le> length x \<and> age_occurs b (take n x) (drop n x)
      \<and> (\<forall>m a. x = m @ a \<and> age_occurs b m a \<longrightarrow> length m \<le> n)" .
next
  fix b x m a assume "AGE_PATTERN (prev_at None b) x = None" "x = m @ a"
  from AGE_PATTERN_complete [OF this] show "\<not> age_occurs b m a" .
qed

lemma extract_price:
  "case fst (extract_price_and_age cell) of
     None \<Rightarrow> \<not> (\<exists>b m a. cell_text cell = b @ m @ a \<and> price_token m)
   | Some m \<Rightarrow> m \<noteq> [] \<and> first_match price_occurs (cell_text cell) m"
proof (cases "re_search PRICE_PATTERN None (cell_text cell)")
  case None
  with price_search [of "cell_text cell"] show ?thesis
    by (simp add: extract_price_and_age_def Let_def price_occurs_def)
next
  case (Some r)
  obtain b g a where r: "r = (b, g, a)" by (cases r)
  from price_search [of "cell_text cell"] Some r
  have fm: "first_match price_occurs (cell_text cell) g" by simp
  from first_match_occurs [OF fm] have "g \<noteq> []"
    using price_token_nonempty by (auto simp: price_occurs_def)
  with fm Some r show ?thesis by (simp add: extract_price_and_age_def Let_def)
qed

lemma extract_age:
  "case snd (extract_price_and_age cell) of
     None \<Rightarrow> \<not> (\<exists>b m a. cell_text cell = b @ m @ a \<and> age_token m \<and> at_word_boundary b (m @ a))
   | Some m \<Rightarrow> m \<noteq> [] \<and> first_match age_occurs (cell_text cell) m"
proof (cases "re_search AGE_PATTERN None (cell_text cell)")
  case None
  with age_search [of "cell_text cell"] show ?thesis
    by (simp add: extract_price_and_age_def Let_def age_occurs_def)
next
  case (Some r)
  obtain b g a where r: "r = (b, g, a)" by (cases r)
  from age_search [of "cell_text cell"] Some r
  have fm: "first_match age_occurs (cell_text cell) g" by simp
  from first_match_occurs [OF fm] have "g \<noteq> []"
    using age_token_nonempty by (auto simp: age_occurs_def)
  with fm Some r show ?thesis by (simp add: extract_price_and_age_def Let_def)
qed

lemma extract_price_and_age_text:
  "extract_price_and_age cell = extract_price_and_age (text_cell (cell_text cell))"
  by (simp add: extract_price_and_age_def text_cell_def)

lemma extract_price_and_age_examples:
  "extract_price_and_age (text_cell ''$10-15'') = (Some ''$10'', None)"
  "extract_price_and_age (text_cell ''FREE'') = (Some ''FREE'', None)"
  "extract_price_and_age (text_cell ''21+ / $15'') = (Some ''$15'', Some ''21+'')"
  "extract_price_and_age (text_cell ''All Ages'') = (None, Some ''All Ages'')"
  "extract_price_and_age (text_cell ''TBA'') = (None, None)"
  by code_simp+

text \<open>
  C6 (price and age), as amended.  For every price/age cell text, the price is the first
  match (leftmost, and longest at its starting place) of a dollar sign followed by one or
  more characters that are digits or dots, or of the words \<open>free\<close> or \<open>donation\<close> in any
  mix of cases; it is null exactly when the text has no such match, and never the empty
  string.  Independently, the age is the first match that starts at a word boundary of
  \<open>21+\<close>, \<open>18+\<close>, \<open>All ages\<close> in any mix of cases, or digits followed by \<open>+\<close>; it is null
  exactly when no such match starts at a word boundary.  Concretely \<open>$10-15\<close> gives price
  \<open>$10\<close> and no age, \<open>FREE\<close> gives price \<open>FREE\<close>, \<open>21+ / $15\<close> gives age \<open>21+\<close> and price
  \<open>$15\<close>, \<open>All Ages\<close> gives age \<open>All Ages\<close> and no price, and \<open>TBA\<close> gives neither.
\<close>

theorem extract_price_and_age_first_match:
  "(case fst (extract_price_and_age cell) of
      None \<Rightarrow> \<not> (\<exists>b m a. cell_text cell = b @ m @ a \<and> price_token m)
    | Some m \<Rightarrow> m \<noteq> [] \<and> first_match price_occurs (cell_text cell) m)
   \<and> (case snd (extract_price_and_age cell) of
      None \<Rightarrow> \<not> (\<exists>b m a. cell_text cell = b @ m @ a \<and> age_token m \<and> at_word_boundary b (m @ a))
    | Some m \<Rightarrow> m \<noteq> [] \<and> first_match age_occurs (cell_text cell) m)
   \<and> (cell_text cell = ''$10-15'' \<longrightarrow> extract_price_and_age cell = (Some ''$10'', None))
   \<and> (cell_text cell = ''FREE'' \<longrightarrow> extract_price_and_age cell = (Some ''FREE'', None))
   \<and> (cell_text cell = ''21+ / $15'' \<longrightarrow> extract_price_and_age cell = (Some ''$15'', Some ''21+''))
   \<and> (cell_text cell = ''All Ages'' \<longrightarrow> extract_price_and_age cell = (None, Some ''All Ages''))
   \<and> (cell_text cell = ''TBA'' \<longrightarrow> extract_price_and_age cell = (None, None))"
proof -
  have ex: "extract_price_and_age cell = r"
    if "extract_price_and_age (text_cell t) = r" "cell_text cell = t" for t r
    using that extract_price_and_age_text [of cell] by simp
  show ?thesis
  proof (intro conjI impI)
    show "case fst (extract_price_and_age cell) of
        None \<Rightarrow> \<not> (\<exists>b m a. cell_text cell = b @ m @ a \<and> price_token m)
      | Some m \<Rightarrow> m \<noteq> [] \<and> first_match price_occurs (cell_text cell) m"
      by (rule extract_price)
    show "case snd (extract_price_and_age cell) of
        None \<Rightarrow> \<not> (\<exists>b m a. cell_text cell = b @ m @ a \<and> age_token m \<and> at_word_boundary b (m @ a))
      | Some m \<Rightarrow> m \<noteq> [] \<and> first_match age_occurs (cell_text cell) m"
      by (rule extract_age)
  qed (rule ex [OF extract_price_and_age_examples(1)] ex [OF extract_price_and_age_examples(2)]
         ex [OF extract_price_and_age_examples(3)] ex [OF extract_price_and_age_examples(4)]
         ex [OF extract_price_and_age_examples(5)], assumption)+
qed

text \<open>
  The two amendments are needed: in the text \<open>$. ages21+\<close> the price found is \<open>$.\<close>, which
  has no digit, and no age is found although \<open>21+\<close> occurs in the text (it does not start at
  a word boundary).
\<close>

theorem extract_price_and_age_first_match_counterexample:
  "extract_price_and_age (text_cell ''$. ages21+'') = (Some ''$.'', None)
   \<and> \<not> list_ex is_digit ''$.''
   \<and> sublist ''21+'' ''$. ages21+''"
  by code_simp

theorem extract_price_and_age_first_match_witness:
  "extract_price_and_age (sample_row ! 3) = (Some ''$10'', Some ''21+'')
   \<and> first_match price_occurs (cell_text (sample_row ! 3)) ''$10''
   \<and> first_match age_occurs (cell_text (sample_row ! 3)) ''21+''
   \<and> cell_text (text_cell ''All Ages'') = ''All Ages''
   \<and> extract_price_and_age (text_cell ''All Ages'') = (None, Some ''All Ages'')
   \<and> extract_price_and_age (sample_row_nbsp ! 3) = (None, None)
   \<and> extract_price_and_age (text_cell ''a21+'') = (None, None)"
proof -
  have ev: "extract_price_and_age (sample_row ! 3) = (Some ''$10'', Some ''21+'')"
    by code_simp
  have t: "cell_text (text_cell ''All Ages'') = ''All Ages''" by (simp add: text_cell_def)
  from extract_price_and_age_first_match [of "sample_row ! 3"]
  have "first_match price_occurs (cell_text (sample_row ! 3)) ''$10''"
    and "first_match age_occurs (cell_text (sample_row ! 3)) ''21+''"
    unfolding ev by simp_all
  moreover from extract_price_and_age_first_match [of "text_cell ''All Ages''"] t
  have "extract_price_and_age (text_cell ''All Ages'') = (None, Some ''All Ages'')" by blast
  moreover have "extract_price_and_age (sample_row_nbsp ! 3) = (None, None)"
    "extract_price_and_age (text_cell ''a21+'') = (None, None)"
    by code_simp+
  ultimately show ?thesis using ev t by blast
qed

end
